theory Spec2Isabelle
  imports Complex_Main
begin

section \<open>Configuration constants of \<open>logs_visualizer.py\<close>\<close>

definition SCREEN_HEIGHT :: int where "SCREEN_HEIGHT = 800"
definition MAIN_AREA_WIDTH :: int where "MAIN_AREA_WIDTH = 850"
definition MAX_BALLS :: nat where "MAX_BALLS = 100"
definition FUNNEL_END_WIDTH :: int where "FUNNEL_END_WIDTH = 150"
definition FUNNEL_CENTER_X :: real where "FUNNEL_CENTER_X = of_int MAIN_AREA_WIDTH / 2"
definition FUNNEL_OPENING_LEFT :: real where
  "FUNNEL_OPENING_LEFT = FUNNEL_CENTER_X - (of_int FUNNEL_END_WIDTH / 2)"
definition FUNNEL_OPENING_RIGHT :: real where
  "FUNNEL_OPENING_RIGHT = FUNNEL_CENTER_X + (of_int FUNNEL_END_WIDTH / 2)"
definition MIN_LINE_SPACING :: int where "MIN_LINE_SPACING = 20"
definition SCROLL_AREA_HEIGHT :: int where "SCROLL_AREA_HEIGHT = SCREEN_HEIGHT - 100"
definition MAX_BALL_RADIUS :: int where "MAX_BALL_RADIUS = 60"
definition DESPAWN_TIME :: int where "DESPAWN_TIME = 10"
definition BALL_SPAWN_VX :: int where "BALL_SPAWN_VX = -250"

section \<open>Data model\<close>

text \<open>
  Exceptions are values. \<open>AssertionError\<close> is what the physics library raises when an
  object is registered twice or deregistered while absent; \<open>Blocked\<close> stands for a
  \<open>Queue.get()\<close> on an empty queue, which never returns.
\<close>

datatype error = ValueError | TypeError | AttributeError | IndexError
  | OverflowError | ZeroDivisionError | AssertionError | Blocked

text \<open>
  The dictionary returned by \<open>extract_log_info\<close> and built by \<open>simulate_logs\<close> always has
  the four keys \<open>method\<close>, \<open>url\<close>, \<open>status\<close>, \<open>size\<close>; it is a record. The fields
  \<open>method\<close> and \<open>size\<close> are written \<open>method'\<close> and \<open>size'\<close>: the first name is a keyword of
  Isabelle, the second a constant of HOL. The status and the size are Python integers, of
  any size.
\<close>

record log_event =
  method' :: string
  url :: string
  status :: int
  size' :: int

datatype shape_kind = Arrow | Cross | Square | Circle

text \<open>
  A \<open>Ball\<close> copies the four fields of its event, so the record extends \<open>log_event\<close>.
  \<open>ident\<close> is the identity of the Python object (the class defines no \<open>__eq__\<close>, so
  \<open>list.remove\<close> compares identities). A float is a real number here: rounding is left
  out, the exceptions that float arithmetic raises are not. The moment of inertia,
  elasticity and friction are handed to the physics library and read by nothing here; they
  are left out.
\<close>

record ball = log_event +
  ident :: nat
  color :: "nat \<times> nat \<times> nat"
  spawn_time :: real
  radius :: real
  mass :: real
  kind :: shape_kind
  pos_x :: real
  pos_y :: real
  vel_x :: real
  vel_y :: real

text \<open>The objects a physics space can hold: the two funnel walls, and per ball its body
  and the shape attributes \<open>arrow_shape\<close>, \<open>shape1\<close>, \<open>shape2\<close>, \<open>shape\<close>.\<close>

datatype phys_obj = LeftWall | RightWall
  | BodyOf nat | ArrowShape nat | Shape1 nat | Shape2 nat | MainShape nat

text \<open>
  The state of a \<open>LogVisualizer\<close> that the frame loop reads and writes. \<open>next_ident\<close>
  allocates object identities. \<open>request_times\<close> feeds only the rate statistics and is left
  out, as are the rendering handles.
\<close>

record visualizer =
  space :: "phys_obj set"
  log_queue :: "log_event list"
  balls :: "ball list"
  recent_urls :: "(string \<times> int) list"
  url_positions :: "(string \<times> int \<times> int) list"
  max_size_seen :: int
  next_ident :: nat

text \<open>What a constructor call takes from outside the program: the results of
  \<open>random.choice\<close>, \<open>time.time()\<close> and the three \<open>random.uniform\<close> calls.\<close>

record draw =
  d_choice :: nat
  d_time :: real
  d_y :: real
  d_vx :: real
  d_vy :: real

definition colors :: "(nat \<times> nat \<times> nat) list" where
  "colors = [(255, 0, 0), (0, 255, 0), (0, 0, 255),
             (255, 255, 0), (255, 0, 255), (0, 255, 255)]"

definition init :: visualizer where
  "init = \<lparr>space = {LeftWall, RightWall}, log_queue = [], balls = [], recent_urls = [],
           url_positions = [], max_size_seen = 1000, next_ident = 0\<rparr>"

section \<open>The log parser\<close>

text \<open>
  A line is a \<open>string\<close>: its characters are the code points below 256, and a line with
  another code point is outside this model. On these code points the classes \<open>\s\<close> and
  \<open>\d\<close> of a \<open>str\<close> pattern are exactly the characters below.
\<close>

definition is_space :: "char \<Rightarrow> bool" where
  "is_space c \<longleftrightarrow>
     (let n = (of_char c :: nat)
      in (9 \<le> n \<and> n \<le> 13) \<or> (28 \<le> n \<and> n \<le> 32) \<or> n = 133 \<or> n = 160)"

definition is_digit :: "char \<Rightarrow> bool" where
  "is_digit c \<longleftrightarrow> (let n = (of_char c :: nat) in 48 \<le> n \<and> n \<le> 57)"

text \<open>The constructs of regular expressions that the pattern of line 98 uses: a literal
  character, \<open>\S+\<close> and \<open>\d+\<close>, concatenation, alternation and a numbered group.\<close>

datatype cclass = NonSpace | Digit

fun in_class :: "cclass \<Rightarrow> char \<Rightarrow> bool" where
  "in_class NonSpace c = (\<not> is_space c)"
| "in_class Digit c = is_digit c"

datatype regex = Lit char | Plus cclass | Seq regex regex | Alt regex regex | Group nat regex

type_synonym groups = "nat \<rightharpoonup> string"

text \<open>
  The backtracking matcher: all the ways an expression matches at the start of \<open>s\<close>, in the
  order the engine tries them, each with the groups set so far and the rest of the input.
  \<open>+\<close> is greedy, so the longest run comes first; an alternation tries its left branch
  first; a group records the text its expression consumed.
\<close>

fun rmatch :: "regex \<Rightarrow> groups \<Rightarrow> string \<Rightarrow> (groups \<times> string) list" where
  "rmatch (Lit c) g s = (case s of [] \<Rightarrow> [] | x # xs \<Rightarrow> if x = c then [(g, xs)] else [])"
| "rmatch (Plus k) g s =
     map (\<lambda>n. (g, drop n s)) (rev [1..<Suc (length (takeWhile (in_class k) s))])"
| "rmatch (Seq a b) g s = concat (map (\<lambda>(g1, s1). rmatch b g1 s1) (rmatch a g s))"
| "rmatch (Alt a b) g s = rmatch a g s @ rmatch b g s"
| "rmatch (Group i a) g s =
     map (\<lambda>(g1, s1). (g1(i \<mapsto> take (length s - length s1) s), s1)) (rmatch a g s)"

text \<open>\<open>re.search\<close>: the first way to match at the leftmost position that has one.\<close>

fun search :: "regex \<Rightarrow> string \<Rightarrow> groups option" where
  "search r [] = (case rmatch r Map.empty [] of [] \<Rightarrow> None | (g, s1) # _ \<Rightarrow> Some g)"
| "search r (c # cs) =
     (case rmatch r Map.empty (c # cs) of [] \<Rightarrow> search r cs | (g, s1) # _ \<Rightarrow> Some g)"

definition dquote :: char where "dquote = CHR 0x22"

text \<open>The pattern \<open>"(\S+) (\S+) \S+" (\d+) (\d+|-)\<close> of line 98.\<close>

definition log_pattern :: regex where
  "log_pattern =
     Seq (Lit dquote) (Seq (Group 1 (Plus NonSpace)) (Seq (Lit CHR '' '')
    (Seq (Group 2 (Plus NonSpace)) (Seq (Lit CHR '' '')
    (Seq (Plus NonSpace) (Seq (Lit dquote) (Seq (Lit CHR '' '')
    (Seq (Group 3 (Plus Digit)) (Seq (Lit CHR '' '')
    (Group 4 (Alt (Plus Digit) (Lit CHR ''-''))))))))))))"

text \<open>
  \<open>int\<close> on a group: \<open>TypeError\<close> on \<open>None\<close>. A string of decimal digits gives its value,
  unless it has more digits than the interpreter converts: \<open>sys.get_int_max_str_digits()\<close>
  is 4300 by default (CPython 3.11, and 3.7 to 3.10 since their security releases of
  September 2022), leading zeros count, and a longer string raises \<open>ValueError\<close>. Any string
  with another character is \<open>ValueError\<close> here (\<open>int\<close> accepts some, such as a sign; the
  parser never passes one).
\<close>

definition int_max_str_digits :: nat where
  "int_max_str_digits = 4300"

definition digit_value :: "char \<Rightarrow> int" where
  "digit_value c = of_char c - 48"

definition py_int :: "string option \<Rightarrow> error + int" where
  "py_int x =
     (case x of
        None \<Rightarrow> Inl TypeError
      | Some s \<Rightarrow>
          if s \<noteq> [] \<and> list_all is_digit s
          then (if length s > int_max_str_digits then Inl ValueError
                else Inr (foldl (\<lambda>a c. 10 * a + digit_value c) 0 s))
          else Inl ValueError)"

text \<open>\<open>str.split\<close> with a separator of one character.\<close>

fun str_split :: "char \<Rightarrow> string \<Rightarrow> string list" where
  "str_split sep [] = [[]]"
| "str_split sep (c # cs) =
     (if c = sep then [] # str_split sep cs
      else (c # hd (str_split sep cs)) # tl (str_split sep cs))"

text \<open>
  Lines 97 to 109. A group that took no part in the match is \<open>None\<close>: \<open>int(None)\<close> raises
  \<open>TypeError\<close> and \<open>None.split\<close> raises \<open>AttributeError\<close>. A method that is \<open>None\<close> has no
  place in the record and is an error here.
\<close>

definition extract_log_info :: "string \<Rightarrow> error + log_event option" where
  "extract_log_info line =
     (case search log_pattern line of
        None \<Rightarrow> Inr None
      | Some g \<Rightarrow>
          (case py_int (g 3) of
             Inl e \<Rightarrow> Inl e
           | Inr st \<Rightarrow>
               (case (if g 4 = Some ''-'' then Inr 0 else py_int (g 4)) of
                  Inl e \<Rightarrow> Inl e
                | Inr sz \<Rightarrow>
                    (case g 2 of
                       None \<Rightarrow> Inl AttributeError
                     | Some u \<Rightarrow>
                         (case str_split CHR ''?'' u of
                            [] \<Rightarrow> Inl IndexError
                          | u0 # _ \<Rightarrow>
                              (case g 1 of
                                 None \<Rightarrow> Inl TypeError
                               | Some m \<Rightarrow>
                                   Inr (Some \<lparr>method' = m, url = u0, status = st,
                                              size' = sz\<rparr>)))))))"

section \<open>The recognized line format\<close>

text \<open>
  The recognized line format, in the words of the specification: somewhere in the line a
  quoted token \<open>"METHOD PATH PROTOCOL"\<close>, then a status of digits, then a size of digits or
  the placeholder \<open>-\<close>, with one blank between them. \<open>pre\<close> and \<open>post\<close> are the text before
  and after.
\<close>

definition token :: "string \<Rightarrow> bool" where
  "token w \<longleftrightarrow> w \<noteq> [] \<and> list_all (\<lambda>c. \<not> is_space c) w"

definition number :: "string \<Rightarrow> bool" where
  "number w \<longleftrightarrow> w \<noteq> [] \<and> list_all is_digit w"

definition recognized ::
  "string \<Rightarrow> string \<Rightarrow> string \<Rightarrow> string \<Rightarrow> string \<Rightarrow> string \<Rightarrow> string \<Rightarrow> string \<Rightarrow> bool" where
  "recognized line pre m p pr st sz post \<longleftrightarrow>
     line = pre @ [dquote] @ m @ '' '' @ p @ '' '' @ pr @ [dquote] @ '' '' @ st @ '' '' @ sz @ post \<and>
     token m \<and> token p \<and> token pr \<and> number st \<and> (number sz \<or> sz = ''-'')"

text \<open>The value of a string of digits, least significant digit first, and the event a
  reading of a line stands for.\<close>

fun decimal_rev :: "string \<Rightarrow> int" where
  "decimal_rev [] = 0"
| "decimal_rev (c # cs) = digit_value c + 10 * decimal_rev cs"

definition decimal :: "string \<Rightarrow> int" where
  "decimal s = decimal_rev (rev s)"

definition reading_event :: "string \<Rightarrow> string \<Rightarrow> string \<Rightarrow> string \<Rightarrow> log_event" where
  "reading_event m p st sz =
     \<lparr>method' = m, url = takeWhile (\<lambda>c. c \<noteq> CHR ''?'') p, status = decimal st,
      size' = (if sz = ''-'' then 0 else decimal sz)\<rparr>"

text \<open>A reading takes the longest size field when no digit follows the field.\<close>

definition longest_size :: "string \<Rightarrow> string \<Rightarrow> bool" where
  "longest_size sz post \<longleftrightarrow> sz = ''-'' \<or> post = [] \<or> \<not> is_digit (hd post)"

section \<open>The physics space\<close>

text \<open>\<open>Space.add\<close> and \<open>Space.remove\<close> take their arguments in order and assert that an object
  is not yet, respectively still, registered.\<close>

fun space_add :: "phys_obj list \<Rightarrow> phys_obj set \<Rightarrow> error + phys_obj set" where
  "space_add [] sp = Inr sp"
| "space_add (x # xs) sp = (if x \<in> sp then Inl AssertionError else space_add xs (insert x sp))"

fun space_remove :: "phys_obj list \<Rightarrow> phys_obj set \<Rightarrow> error + phys_obj set" where
  "space_remove [] sp = Inr sp"
| "space_remove (x # xs) sp =
     (if x \<in> sp then space_remove xs (sp - {x}) else Inl AssertionError)"

section \<open>\<open>Ball.__init__\<close>\<close>

definition is_post_or_delete :: "string \<Rightarrow> bool" where
  "is_post_or_delete m \<longleftrightarrow> m \<in> set [''POST'', ''DELETE'']"

text \<open>
  Line 171 divides two integers. The quotient is the nearest float, and the division raises
  \<open>OverflowError\<close> when that float would not be finite: when the magnitude of the quotient
  is at least \<open>2 ^ 1024 - 2 ^ 970\<close>, the midpoint between the largest float and \<open>2 ^ 1024\<close>.
\<close>

definition float_overflows :: "real \<Rightarrow> bool" where
  "float_overflows x \<longleftrightarrow> \<bar>x\<bar> \<ge> 2 ^ 1024 - 2 ^ 970"

definition py_truediv :: "int \<Rightarrow> int \<Rightarrow> error + real" where
  "py_truediv a b =
     (if b = 0 then Inl ZeroDivisionError
      else if float_overflows (of_int a / of_int b) then Inl OverflowError
      else Inr (of_int a / of_int b))"

text \<open>
  Lines 168 to 180: the radius from the size and the largest size seen. The division comes
  first and its exception leaves the constructor, also for a request that gets the fixed
  radius at line 180.
\<close>

definition ball_radius :: "int \<Rightarrow> string \<Rightarrow> int \<Rightarrow> int \<Rightarrow> error + real" where
  "ball_radius mss m st sz =
     (case (if mss > 0
            then (case py_truediv sz mss of
                    Inl e \<Rightarrow> Inl e
                  | Inr q \<Rightarrow>
                      Inr (let scale = min q 1.0;
                               radius_range = of_int (MAX_BALL_RADIUS - 15)
                           in 15 + (scale * radius_range)))
            else Inr 15) of
        Inl e \<Rightarrow> Inl e
      | Inr r0 \<Rightarrow>
          Inr (let r1 = min r0 (of_int MAX_BALL_RADIUS)
               in if st = 404 \<or> is_post_or_delete m then 15 else r1))"

definition ball_kind :: "string \<Rightarrow> int \<Rightarrow> shape_kind" where
  "ball_kind m st =
     (if m = ''POST'' then Arrow
      else if m = ''DELETE'' then Cross
      else if st = 404 then Square
      else Circle)"

text \<open>The objects of a ball in the order lines 248 to 253 register them.\<close>

definition added_objs :: "string \<Rightarrow> nat \<Rightarrow> phys_obj list" where
  "added_objs m i =
     (if m = ''POST'' then [BodyOf i, ArrowShape i]
      else if m = ''DELETE'' then [BodyOf i, Shape1 i, Shape2 i]
      else [BodyOf i, MainShape i])"

text \<open>
  Lines 160 to 239: the attributes of the new object, when the radius is computed. The
  radius lies between 15 and 60, so the square of line 182 is within the floats.
\<close>

definition new_ball :: "draw \<Rightarrow> visualizer \<Rightarrow> log_event \<Rightarrow> error + ball" where
  "new_ball d v log_data =
     (case ball_radius (max_size_seen v) (method' log_data) (status log_data)
             (size' log_data) of
        Inl e \<Rightarrow> Inl e
      | Inr r \<Rightarrow>
          Inr (let m = (if \<not> is_post_or_delete (method' log_data) then r ^ 2 else 1)
               in \<lparr>method' = method' log_data, url = url log_data, status = status log_data,
                   size' = size' log_data, ident = next_ident v,
                   color = colors ! (d_choice d mod length colors),
                   spawn_time = d_time d, radius = r, mass = m,
                   kind = ball_kind (method' log_data) (status log_data),
                   pos_x = of_int (MAIN_AREA_WIDTH - 20) - r, pos_y = d_y d,
                   vel_x = of_int BALL_SPAWN_VX + d_vx d, vel_y = d_vy d\<rparr>))"

text \<open>The constructor: the attributes, then lines 248 to 253, the registration.\<close>

definition Ball_init :: "draw \<Rightarrow> visualizer \<Rightarrow> log_event \<Rightarrow> error + (ball \<times> visualizer)" where
  "Ball_init d v log_data =
     (case new_ball d v log_data of
        Inl e \<Rightarrow> Inl e
      | Inr b \<Rightarrow>
          (case space_add (added_objs (method' b) (ident b)) (space v) of
             Inl e \<Rightarrow> Inl e
           | Inr sp \<Rightarrow> Inr (b, v\<lparr>space := sp, next_ident := Suc (next_ident v)\<rparr>)))"

section \<open>The recent-activity list\<close>

text \<open>Lines 285 to 288: every entry moves down by one line.\<close>

function shift_urls :: "nat \<Rightarrow> (string \<times> int \<times> int) list \<Rightarrow> (string \<times> int \<times> int) list" where
  "shift_urls i ups =
     (if i < length ups
      then (case ups ! i of (u, sz, y_pos) \<Rightarrow>
              shift_urls (Suc i) (ups[i := (u, sz, y_pos + MIN_LINE_SPACING)]))
      else ups)"
  by pat_completeness auto
termination
  by (relation "measure (\<lambda>(i, ups). length ups - i)") auto

declare shift_urls.simps [simp del]

text \<open>Lines 290 to 293: the indices \<open>n - 1\<close> down to \<open>0\<close>; the argument counts the indices
  still to visit, so the index visited is one less.\<close>

fun pop_urls :: "nat \<Rightarrow> (string \<times> int \<times> int) list \<Rightarrow> (string \<times> int \<times> int) list" where
  "pop_urls 0 ups = ups"
| "pop_urls (Suc i) ups =
     (case ups ! i of (u, sz, y_pos) \<Rightarrow>
        pop_urls i (if y_pos \<ge> SCROLL_AREA_HEIGHT then take i ups @ drop (Suc i) ups else ups))"

definition track_url :: "log_event \<Rightarrow> (string \<times> int \<times> int) list \<Rightarrow> (string \<times> int \<times> int) list" where
  "track_url log_data ups =
     (let ups1 = shift_urls 0 ups;
          ups2 = pop_urls (length ups1) ups1
      in ups2 @ [(url log_data, size' log_data, 20)])"

section \<open>The frame loop\<close>

text \<open>Lines 273 to 275: the key \<open>R\<close>.\<close>

definition reset_scale :: "visualizer \<Rightarrow> visualizer" where
  "reset_scale v = v\<lparr>max_size_seen := 1000\<rparr>"

text \<open>What the producer thread does to the state the loop sees: \<open>log_queue.put\<close>.\<close>

definition put :: "log_event \<Rightarrow> visualizer \<Rightarrow> visualizer" where
  "put e v = v\<lparr>log_queue := log_queue v @ [e]\<rparr>"

definition queue_get :: "visualizer \<Rightarrow> error + (log_event \<times> visualizer)" where
  "queue_get v = (case log_queue v of [] \<Rightarrow> Inl Blocked
                  | e # q \<Rightarrow> Inr (e, v\<lparr>log_queue := q\<rparr>))"

text \<open>Lines 279 to 295: the body of the loop that empties the queue. The draw is what the
  constructor call of this iteration takes from outside.\<close>

definition spawn :: "draw \<Rightarrow> visualizer \<Rightarrow> error + visualizer" where
  "spawn d v =
     (case queue_get v of
        Inl e \<Rightarrow> Inl e
      | Inr (log_data, v1) \<Rightarrow>
          (case Ball_init d v1 log_data of
             Inl e \<Rightarrow> Inl e
           | Inr (b, v2) \<Rightarrow>
               Inr (v2\<lparr>balls := balls v2 @ [b],
                       max_size_seen := max (max_size_seen v2) (size' log_data),
                       recent_urls := recent_urls v2 @ [(url log_data, size' log_data)],
                       url_positions := track_url log_data (url_positions v2)\<rparr>)))"

lemma spawn_queue:
  "spawn d v = Inr v' \<Longrightarrow> log_queue v = hd (log_queue v) # log_queue v'"
  by (auto simp: spawn_def queue_get_def Ball_init_def Let_def
           split: list.splits sum.splits prod.splits)

text \<open>Line 278: the guard of the loop.\<close>

definition may_spawn :: "visualizer \<Rightarrow> bool" where
  "may_spawn v \<longleftrightarrow> log_queue v \<noteq> [] \<and> length (balls v) < MAX_BALLS"

text \<open>Lines 278 to 295, with no \<open>put\<close> in between. The draws are numbered by the identity
  the new object gets.\<close>

function drain :: "(nat \<Rightarrow> draw) \<Rightarrow> visualizer \<Rightarrow> error + visualizer" where
  "drain env v =
     (if may_spawn v
      then (case spawn (env (next_ident v)) v of Inl e \<Rightarrow> Inl e | Inr v' \<Rightarrow> drain env v')
      else Inr v)"
  by pat_completeness auto
termination
proof (relation "measure (\<lambda>(env, v). length (log_queue v))")
  show "wf (measure (\<lambda>(env, v). length (log_queue v)))" by simp
next
  fix env v x2
  assume "may_spawn v" and "spawn (env (next_ident v)) v = Inr x2"
  then show "((env, x2), (env, v)) \<in> measure (\<lambda>(env, v). length (log_queue v))"
    using spawn_queue [of "env (next_ident v)" v x2]
    by (cases "log_queue v") (auto simp: may_spawn_def)
qed

declare drain.simps [simp del]

text \<open>Lines 298 to 300: the solver is a black box that moves the bodies; \<open>f\<close> gives each
  ball its new position and velocity.\<close>

definition physics :: "(ball \<Rightarrow> (real \<times> real) \<times> (real \<times> real)) \<Rightarrow> visualizer \<Rightarrow> visualizer" where
  "physics f v =
     v\<lparr>balls := map (\<lambda>b. b\<lparr>pos_x := fst (fst (f b)), pos_y := snd (fst (f b)),
                              vel_x := fst (snd (f b)), vel_y := snd (snd (f b))\<rparr>) (balls v)\<rparr>"

text \<open>Lines 307, 308 and 317: the two tests of the reaping pass.\<close>

definition funnel_exit :: "ball \<Rightarrow> bool" where
  "funnel_exit b \<longleftrightarrow>
     pos_y b > of_int SCREEN_HEIGHT \<and>
     FUNNEL_OPENING_LEFT \<le> pos_x b \<and> pos_x b \<le> FUNNEL_OPENING_RIGHT"

definition too_old :: "real \<Rightarrow> ball \<Rightarrow> bool" where
  "too_old current_time b \<longleftrightarrow> (current_time - spawn_time b) > of_int DESPAWN_TIME"

text \<open>The objects of a ball in the order lines 309 to 314 (and 318 to 323) deregister them.\<close>

definition removed_objs :: "string \<Rightarrow> nat \<Rightarrow> phys_obj list" where
  "removed_objs m i =
     (if m = ''POST'' then [ArrowShape i, BodyOf i]
      else if m = ''DELETE'' then [Shape1 i, Shape2 i, BodyOf i]
      else [MainShape i, BodyOf i])"

text \<open>\<open>list.remove\<close>: the first element that is the object, \<open>ValueError\<close> when there is none.\<close>

fun remove_first :: "nat \<Rightarrow> ball list \<Rightarrow> ball list" where
  "remove_first i [] = []"
| "remove_first i (x # xs) = (if ident x = i then xs else x # remove_first i xs)"

definition list_remove :: "ball \<Rightarrow> ball list \<Rightarrow> error + ball list" where
  "list_remove b bs =
     (if list_ex (\<lambda>x. ident x = ident b) bs then Inr (remove_first (ident b) bs)
      else Inl ValueError)"

definition discard :: "ball \<Rightarrow> visualizer \<Rightarrow> error + visualizer" where
  "discard b v =
     (case space_remove (removed_objs (method' b) (ident b)) (space v) of
        Inl e \<Rightarrow> Inl e
      | Inr sp \<Rightarrow>
          (case list_remove b (balls v) of
             Inl e \<Rightarrow> Inl e
           | Inr bs \<Rightarrow> Inr (v\<lparr>space := sp, balls := bs\<rparr>)))"

text \<open>
  Lines 305 to 324, the body of the loop: the \<open>if\<close> of line 307, then the \<open>elif\<close> of line
  317. The two branches run the same statements, so the state cannot tell which one ran;
  the result names it.
\<close>

datatype branch = Exit | Despawn | Keep

definition reap_ball :: "real \<Rightarrow> ball \<Rightarrow> visualizer \<Rightarrow> error + (branch \<times> visualizer)" where
  "reap_ball current_time b v =
     (if funnel_exit b
      then (case discard b v of Inl e \<Rightarrow> Inl e | Inr v' \<Rightarrow> Inr (Exit, v'))
      else if too_old current_time b
      then (case discard b v of Inl e \<Rightarrow> Inl e | Inr v' \<Rightarrow> Inr (Despawn, v'))
      else Inr (Keep, v))"

text \<open>Line 304: the loop runs over a copy of the list taken before the first removal. The
  result lists the branch each ball of the copy took, in order.\<close>

fun reap_loop :: "real \<Rightarrow> ball list \<Rightarrow> visualizer \<Rightarrow> error + (branch list \<times> visualizer)" where
  "reap_loop current_time [] v = Inr ([], v)"
| "reap_loop current_time (b # bs) v =
     (case reap_ball current_time b v of
        Inl e \<Rightarrow> Inl e
      | Inr (br, v') \<Rightarrow>
          (case reap_loop current_time bs v' of
             Inl e \<Rightarrow> Inl e
           | Inr (brs, v'') \<Rightarrow> Inr (br # brs, v'')))"

definition reap :: "real \<Rightarrow> visualizer \<Rightarrow> error + (branch list \<times> visualizer)" where
  "reap current_time v = reap_loop current_time (balls v) v"

text \<open>
  Everything that changes the state, one action at a time: the producer thread's \<open>put\<close>,
  the key \<open>R\<close>, one test of the guard of line 278 with the loop body when it holds, the
  solver, and the reaping pass with the value of \<open>time.time()\<close>. A run of the program is a
  sequence of these from \<open>init\<close>; the producer's \<open>put\<close> may fall between any two. An
  exception in the frame loop ends the run.
\<close>

datatype action = Put log_event | Reset | Spawn draw
  | Physics "ball \<Rightarrow> (real \<times> real) \<times> (real \<times> real)" | Reap real

fun exec :: "action \<Rightarrow> visualizer \<Rightarrow> error + visualizer" where
  "exec (Put e) v = Inr (put e v)"
| "exec Reset v = Inr (reset_scale v)"
| "exec (Spawn d) v = (if may_spawn v then spawn d v else Inr v)"
| "exec (Physics f) v = Inr (physics f v)"
| "exec (Reap t) v = (case reap t v of Inl e \<Rightarrow> Inl e | Inr (brs, v') \<Rightarrow> Inr v')"

fun run :: "action list \<Rightarrow> visualizer \<Rightarrow> error + visualizer" where
  "run [] v = Inr v"
| "run (a # as) v = (case exec a v of Inl e \<Rightarrow> Inl e | Inr v' \<Rightarrow> run as v')"

text \<open>The physics space holds the walls and the objects of the live balls, and the live
  balls are distinct objects allocated earlier.\<close>

definition ball_objs :: "ball \<Rightarrow> phys_obj set" where
  "ball_objs b = set (added_objs (method' b) (ident b))"

definition consistent :: "visualizer \<Rightarrow> bool" where
  "consistent v \<longleftrightarrow>
     distinct (map ident (balls v)) \<and>
     list_all (\<lambda>b. ident b < next_ident v) (balls v) \<and>
     space v = {LeftWall, RightWall} \<union> \<Union> (set (map ball_objs (balls v)))"

section \<open>The parser reads the recognized format\<close>

lemma concat_rev_upt_single:
  assumes "\<And>j. 1 \<le> j \<Longrightarrow> j \<le> n \<Longrightarrow> j \<noteq> m \<Longrightarrow> f j = []"
  shows "concat (map f (rev [1..<Suc n])) = (if 1 \<le> m \<and> m \<le> n then f m else [])"
  using assms
proof (induction n)
  case 0
  then show ?case by auto
next
  case (Suc n)
  have ih: "concat (map f (rev [1..<Suc n])) = (if 1 \<le> m \<and> m \<le> n then f m else [])"
    using Suc.prems by (intro Suc.IH) auto
  have c: "concat (map f (rev [1..<Suc (Suc n)])) = f (Suc n) @ concat (map f (rev [1..<Suc n]))"
    by simp
  show ?case
  proof (cases "m = Suc n")
    case True
    then show ?thesis unfolding c ih by simp
  next
    case False
    then have "f (Suc n) = []" using Suc.prems [of "Suc n"] by simp
    then show ?thesis unfolding c ih using False by auto
  qed
qed

lemma takeWhile_nth_holds:
  "j < length (takeWhile P s) \<Longrightarrow> P (s ! j) \<and> j < length s"
proof -
  assume j: "j < length (takeWhile P s)"
  then have "takeWhile P s ! j \<in> set (takeWhile P s)" by simp
  then have "P (takeWhile P s ! j)" by (rule set_takeWhileD [THEN conjunct2])
  moreover have "takeWhile P s ! j = s ! j" using j by (rule takeWhile_nth)
  moreover have "length (takeWhile P s) \<le> length s" by (rule length_takeWhile_le)
  ultimately show ?thesis using j by simp
qed

lemma rmatch_group_plus:
  "rmatch (Group i (Plus k)) g s =
     map (\<lambda>j. (g(i \<mapsto> take j s), drop j s))
       (rev [1..<Suc (length (takeWhile (in_class k) s))])"
proof -
  have "length (takeWhile (in_class k) s) \<le> length s" by (rule length_takeWhile_le)
  then have "\<And>j. j \<in> set (rev [1..<Suc (length (takeWhile (in_class k) s))])
              \<Longrightarrow> length s - length (drop j s) = j"
    by auto
  then show ?thesis by (simp add: comp_def)
qed

text \<open>The longest run of characters with \<open>P\<close>, when it is not empty and \<open>c\<close> follows it,
  and the text after \<open>c\<close>.\<close>

definition read_token :: "(char \<Rightarrow> bool) \<Rightarrow> char \<Rightarrow> string \<Rightarrow> (string \<times> string) option" where
  "read_token P c s =
     (case dropWhile P s of
        [] \<Rightarrow> None
      | x # t \<Rightarrow> if takeWhile P s \<noteq> [] \<and> x = c then Some (takeWhile P s, t) else None)"

lemma concat_plus_then:
  assumes "\<And>g' x xs. in_class k x \<Longrightarrow> C g' (x # xs) = []"
  shows "concat (map (\<lambda>j. C (G j) (drop j s)) (rev [1..<Suc (length (takeWhile (in_class k) s))]))
         = (if takeWhile (in_class k) s = [] then []
            else C (G (length (takeWhile (in_class k) s))) (dropWhile (in_class k) s))"
proof -
  let ?n = "length (takeWhile (in_class k) s)"
  have "concat (map (\<lambda>j. C (G j) (drop j s)) (rev [1..<Suc ?n]))
        = (if 1 \<le> ?n \<and> ?n \<le> ?n then C (G ?n) (drop ?n s) else [])"
  proof (rule concat_rev_upt_single)
    fix j assume "1 \<le> j" "j \<le> ?n" "j \<noteq> ?n"
    then have "j < ?n" by simp
    then have "in_class k (s ! j)" "j < length s"
      using takeWhile_nth_holds [of j "in_class k" s] by simp_all
    then show "C (G j) (drop j s) = []"
      using assms by (simp add: Cons_nth_drop_Suc [symmetric])
  qed
  moreover have "drop ?n s = dropWhile (in_class k) s" by (simp add: dropWhile_eq_drop)
  moreover have "1 \<le> ?n \<longleftrightarrow> takeWhile (in_class k) s \<noteq> []"
    by (cases "takeWhile (in_class k) s") auto
  ultimately show ?thesis by simp
qed

lemma rmatch_group_plus_lit:
  assumes "\<not> in_class k c"
  shows "rmatch (Seq (Group i (Plus k)) (Seq (Lit c) r)) g s =
           (case read_token (in_class k) c s of
              None \<Rightarrow> []
            | Some (w, t) \<Rightarrow> rmatch r (g(i \<mapsto> w)) t)"
proof -
  let ?C = "\<lambda>g' s'. rmatch (Seq (Lit c) r) g' s'"
  let ?n = "length (takeWhile (in_class k) s)"
  have dead: "\<And>g' x xs. in_class k x \<Longrightarrow> ?C g' (x # xs) = []"
    using assms by auto
  have "rmatch (Seq (Group i (Plus k)) (Seq (Lit c) r)) g s
        = concat (map (\<lambda>j. ?C (g(i \<mapsto> take j s)) (drop j s)) (rev [1..<Suc ?n]))"
    unfolding rmatch.simps(3) [of "Group i (Plus k)"] rmatch_group_plus
    by (simp add: comp_def)
  also have "\<dots> = (if takeWhile (in_class k) s = [] then []
            else ?C (g(i \<mapsto> take ?n s)) (dropWhile (in_class k) s))"
    using dead by (rule concat_plus_then [where G = "\<lambda>j. g(i \<mapsto> take j s)"])
  also have "\<dots> = (case read_token (in_class k) c s of
              None \<Rightarrow> []
            | Some (w, t) \<Rightarrow> rmatch r (g(i \<mapsto> w)) t)"
  proof -
    have tk: "take ?n s = takeWhile (in_class k) s" by (rule takeWhile_eq_take [symmetric])
    show ?thesis
    proof (cases "dropWhile (in_class k) s")
      case Nil
      show ?thesis unfolding read_token_def tk Nil by simp
    next
      case (Cons x t)
      show ?thesis unfolding read_token_def tk Cons by simp
    qed
  qed
  finally show ?thesis .
qed

lemma not_space_dquote [simp]: "\<not> is_space dquote"
  by (simp add: is_space_def dquote_def)

lemma is_space_blank [simp]: "is_space CHR '' ''"
  by (simp add: is_space_def)

lemma not_digit_blank [simp]: "\<not> is_digit CHR '' ''"
  by (simp add: is_digit_def)

lemma not_digit_dash [simp]: "\<not> is_digit CHR ''-''"
  by (simp add: is_digit_def)

lemma rmatch_lit_seq:
  "rmatch (Seq (Lit c) r) g s = (case s of [] \<Rightarrow> [] | x # xs \<Rightarrow> if x = c then rmatch r g xs else [])"
  by (cases s) auto

lemma rmatch_token_quote:
  "rmatch (Seq (Plus NonSpace) (Seq (Lit dquote) (Seq (Lit CHR '' '') r))) g s =
     (case read_token (in_class NonSpace) CHR '' '' s of
        None \<Rightarrow> []
      | Some (w, t) \<Rightarrow> if 2 \<le> length w \<and> last w = dquote then rmatch r g t else [])"
proof -
  let ?P = "in_class NonSpace"
  let ?w = "takeWhile ?P s"
  let ?n = "length ?w"
  let ?f = "\<lambda>j. rmatch (Seq (Lit dquote) (Seq (Lit CHR '' '') r)) g (drop j s)"
  have nle: "?n \<le> length s" by (rule length_takeWhile_le)
  have dn: "drop ?n s = dropWhile ?P s" by (simp add: dropWhile_eq_drop)
  have "rmatch (Seq (Plus NonSpace) (Seq (Lit dquote) (Seq (Lit CHR '' '') r))) g s
        = concat (map ?f (rev [1..<Suc ?n]))"
    unfolding rmatch.simps(3) [of "Plus NonSpace"] by (simp add: comp_def)
  also have "\<dots> = (if 1 \<le> ?n - 1 \<and> ?n - 1 \<le> ?n then ?f (?n - 1) else [])"
  proof (rule concat_rev_upt_single)
    fix j assume j: "1 \<le> j" "j \<le> ?n" "j \<noteq> ?n - 1"
    show "?f j = []"
    proof (cases "j = ?n")
      case True
      show ?thesis
      proof (cases "dropWhile ?P s")
        case Nil
        show ?thesis unfolding True dn Nil by (simp add: rmatch_lit_seq)
      next
        case (Cons x t)
        then have "\<not> ?P x" using hd_dropWhile [of ?P s] by auto
        then have "x \<noteq> dquote" by auto
        then show ?thesis unfolding True dn Cons by (simp add: rmatch_lit_seq)
      qed
    next
      case False
      then have lt: "Suc j < ?n" using j by simp
      then have "?P (s ! Suc j)" "Suc j < length s"
        using takeWhile_nth_holds [of "Suc j" ?P s] by simp_all
      then have "s ! Suc j \<noteq> CHR '' ''" by auto
      moreover have "drop j s = s ! j # s ! Suc j # drop (Suc (Suc j)) s"
        using \<open>Suc j < length s\<close> by (simp add: Cons_nth_drop_Suc)
      ultimately show ?thesis by (simp add: rmatch_lit_seq)
    qed
  qed
  also have "\<dots> = (case read_token ?P CHR '' '' s of
        None \<Rightarrow> []
      | Some (w, t) \<Rightarrow> if 2 \<le> length w \<and> last w = dquote then rmatch r g t else [])"
  proof (cases "2 \<le> ?n")
    case False
    then show ?thesis by (auto simp: read_token_def split: list.splits)
  next
    case True
    then obtain m where m: "?n = Suc m" by (cases ?n) auto
    have lt: "m < ?n" using m by simp
    then have "m < length s" using nle by simp
    then have "drop m s = s ! m # drop (Suc m) s" by (simp add: Cons_nth_drop_Suc)
    moreover have "s ! m = last ?w"
    proof -
      have "?w \<noteq> []" using m by auto
      then have "last ?w = ?w ! (?n - 1)" by (rule last_conv_nth)
      also have "\<dots> = ?w ! m" using m by simp
      also have "\<dots> = s ! m" using lt by (rule takeWhile_nth)
      finally show ?thesis by simp
    qed
    ultimately have "drop m s = last ?w # dropWhile ?P s" using dn m by simp
    then have d: "drop (?n - 1) s = last ?w # dropWhile ?P s" using m by simp
    have ne: "?w \<noteq> []" using True by auto
    have one: "1 \<le> ?n - 1 \<and> ?n - 1 \<le> ?n" using True by simp
    show ?thesis
    proof (cases "dropWhile ?P s")
      case Nil
      show ?thesis unfolding d read_token_def Nil using True one by (simp add: rmatch_lit_seq)
    next
      case (Cons x t)
      show ?thesis unfolding d read_token_def Cons using True ne one
        by (simp add: rmatch_lit_seq)
    qed
  qed
  finally show ?thesis .
qed

lemma rmatch_size_group:
  "rmatch (Group i (Alt (Plus Digit) (Lit c))) g s =
     map (\<lambda>j. (g(i \<mapsto> take j s), drop j s))
       (rev [1..<Suc (length (takeWhile (in_class Digit) s))])
     @ (case s of [] \<Rightarrow> [] | x # xs \<Rightarrow> if x = c then [(g(i \<mapsto> [c]), xs)] else [])"
proof -
  have "length (takeWhile (in_class Digit) s) \<le> length s" by (rule length_takeWhile_le)
  then have "\<And>j. j \<in> set (rev [1..<Suc (length (takeWhile (in_class Digit) s))])
              \<Longrightarrow> length s - length (drop j s) = j"
    by auto
  then have "map (\<lambda>(g1, s1). (g1(i \<mapsto> take (length s - length s1) s), s1))
                 (rmatch (Plus Digit) g s)
             = map (\<lambda>j. (g(i \<mapsto> take j s), drop j s))
                 (rev [1..<Suc (length (takeWhile (in_class Digit) s))])"
    by (simp add: comp_def)
  moreover have "map (\<lambda>(g1, s1). (g1(i \<mapsto> take (length s - length s1) s), s1))
                     (rmatch (Lit c) g s)
                 = (case s of [] \<Rightarrow> [] | x # xs \<Rightarrow> if x = c then [(g(i \<mapsto> [c]), xs)] else [])"
    by (cases s) auto
  ultimately show ?thesis by simp
qed

text \<open>What the matcher finds first at the start of a text, in closed form.\<close>

definition reading_groups :: "string \<times> string \<times> string \<times> string \<Rightarrow> groups" where
  "reading_groups = (\<lambda>(m, p, st, sz). Map.empty(1 \<mapsto> m, 2 \<mapsto> p, 3 \<mapsto> st, 4 \<mapsto> sz))"

definition read_size :: "string \<Rightarrow> string option" where
  "read_size s =
     (if takeWhile (in_class Digit) s \<noteq> [] then Some (takeWhile (in_class Digit) s)
      else (case s of [] \<Rightarrow> None | x # xs \<Rightarrow> if x = CHR ''-'' then Some ''-'' else None))"

definition first_reading :: "string \<Rightarrow> (string \<times> string \<times> string \<times> string) option" where
  "first_reading s =
     (case s of
        [] \<Rightarrow> None
      | q # s1 \<Rightarrow>
          if q \<noteq> dquote then None
          else (case read_token (in_class NonSpace) CHR '' '' s1 of
                  None \<Rightarrow> None
                | Some (m, s2) \<Rightarrow>
          (case read_token (in_class NonSpace) CHR '' '' s2 of
                  None \<Rightarrow> None
                | Some (p, s3) \<Rightarrow>
          (case read_token (in_class NonSpace) CHR '' '' s3 of
                  None \<Rightarrow> None
                | Some (w, s4) \<Rightarrow>
                    if \<not> (2 \<le> length w \<and> last w = dquote) then None
                    else (case read_token (in_class Digit) CHR '' '' s4 of
                            None \<Rightarrow> None
                          | Some (st, s5) \<Rightarrow>
                              map_option (\<lambda>sz. (m, p, st, sz)) (read_size s5))))))"

definition first_groups :: "(groups \<times> string) list \<Rightarrow> groups option" where
  "first_groups rs = (case rs of [] \<Rightarrow> None | (g, s1) # _ \<Rightarrow> Some g)"

lemma first_groups_Nil [simp]: "first_groups [] = None"
  by (simp add: first_groups_def)

lemma first_groups_size:
  "first_groups (rmatch (Group i (Alt (Plus Digit) (Lit CHR ''-''))) g s)
     = map_option (\<lambda>sz. g(i \<mapsto> sz)) (read_size s)"
proof (cases "takeWhile (in_class Digit) s = []")
  case True
  then show ?thesis
    by (cases s) (auto simp: rmatch_size_group first_groups_def read_size_def)
next
  case False
  let ?n = "length (takeWhile (in_class Digit) s)"
  obtain m where m: "?n = Suc m" using False by (cases ?n) auto
  have "rev [1..<Suc ?n] = ?n # rev [1..<?n]" using m by simp
  moreover have "take ?n s = takeWhile (in_class Digit) s"
    by (rule takeWhile_eq_take [symmetric])
  ultimately show ?thesis
    using False unfolding rmatch_size_group by (simp add: first_groups_def read_size_def)
qed

lemma first_groups_log_pattern:
  "first_groups (rmatch log_pattern Map.empty s) = map_option reading_groups (first_reading s)"
proof -
  have a: "\<not> in_class NonSpace CHR '' ''" and b: "\<not> in_class Digit CHR '' ''" by simp_all
  show ?thesis
    unfolding log_pattern_def rmatch_lit_seq rmatch_group_plus_lit [OF a]
      rmatch_group_plus_lit [OF b] rmatch_token_quote first_reading_def
    by (auto simp del: rmatch.simps
             simp: first_groups_size reading_groups_def option.map_comp comp_def
             split: list.splits option.splits)
qed

lemma in_class_NonSpace: "in_class NonSpace = (\<lambda>c. \<not> is_space c)"
  by (rule ext) simp

lemma in_class_Digit: "in_class Digit = is_digit"
  by (rule ext) simp

lemma read_token_iff:
  assumes "\<not> P c"
  shows "read_token P c s = Some (w, t) \<longleftrightarrow> w \<noteq> [] \<and> list_all P w \<and> s = w @ c # t"
proof
  assume r: "read_token P c s = Some (w, t)"
  then obtain x where d: "dropWhile P s = x # t" and w: "takeWhile P s = w" "w \<noteq> []" "x = c"
    by (auto simp: read_token_def split: list.splits if_splits)
  have "s = takeWhile P s @ dropWhile P s" by simp
  then have "s = w @ c # t" using d w by simp
  moreover have "list_all P w" using w(1) by (auto simp: list_all_iff dest: set_takeWhileD)
  ultimately show "w \<noteq> [] \<and> list_all P w \<and> s = w @ c # t" using w(2) by simp
next
  assume a: "w \<noteq> [] \<and> list_all P w \<and> s = w @ c # t"
  then have all: "\<And>x. x \<in> set w \<Longrightarrow> P x" by (simp add: list_all_iff)
  have "takeWhile P s = w" using a assms all by (simp add: takeWhile_append2)
  moreover have "dropWhile P s = c # t" using a assms all by (simp add: dropWhile_append2)
  ultimately show "read_token P c s = Some (w, t)" using a by (simp add: read_token_def)
qed

lemma read_size_digits:
  assumes "number sz"
  shows "read_size (sz @ post) = Some (sz @ takeWhile is_digit post)"
proof -
  have "\<And>x. x \<in> set sz \<Longrightarrow> is_digit x" using assms by (simp add: number_def list_all_iff)
  then have "takeWhile is_digit (sz @ post) = sz @ takeWhile is_digit post"
    by (simp add: takeWhile_append2)
  then show ?thesis using assms by (simp add: read_size_def in_class_Digit number_def)
qed

lemma read_size_dash: "read_size (''-'' @ post) = Some ''-''"
  by (simp add: read_size_def)

lemma read_size_Some:
  assumes "read_size s = Some sz"
  shows "\<exists>post. s = sz @ post \<and> (number sz \<or> sz = ''-'') \<and>
           (sz = ''-'' \<or> post = [] \<or> \<not> is_digit (hd post))"
proof (cases "takeWhile is_digit s = []")
  case True
  then obtain xs where "s = CHR ''-'' # xs" "sz = ''-''"
    using assms by (auto simp: read_size_def in_class_Digit split: list.splits if_splits)
  then show ?thesis by simp
next
  case False
  then have sz: "sz = takeWhile is_digit s" using assms by (simp add: read_size_def in_class_Digit)
  have "s = sz @ dropWhile is_digit s" unfolding sz by simp
  moreover have "number sz"
    using False unfolding sz number_def by (auto simp: list_all_iff dest: set_takeWhileD)
  moreover have "dropWhile is_digit s = [] \<or> \<not> is_digit (hd (dropWhile is_digit s))"
    using hd_dropWhile [of is_digit s] by auto
  ultimately show ?thesis by blast
qed

lemma first_reading_recognized:
  assumes "first_reading s = Some (m, p, st, sz)"
  shows "\<exists>pr post. recognized s [] m p pr st sz post \<and>
           (sz = ''-'' \<or> post = [] \<or> \<not> is_digit (hd post))"
proof -
  have a: "\<not> in_class NonSpace CHR '' ''" and b: "\<not> in_class Digit CHR '' ''" by simp_all
  note ta = read_token_iff [of "in_class NonSpace" "CHR '' ''", OF a]
  note tb = read_token_iff [of "in_class Digit" "CHR '' ''", OF b]
  from assms obtain s1 s2 s3 w s4 s5 where
    s: "s = dquote # s1" and
    r1: "read_token (in_class NonSpace) CHR '' '' s1 = Some (m, s2)" and
    r2: "read_token (in_class NonSpace) CHR '' '' s2 = Some (p, s3)" and
    r3: "read_token (in_class NonSpace) CHR '' '' s3 = Some (w, s4)" and
    w: "2 \<le> length w" "last w = dquote" and
    r4: "read_token (in_class Digit) CHR '' '' s4 = Some (st, s5)" and
    r5: "read_size s5 = Some sz"
    by (auto simp: first_reading_def split: list.splits if_splits option.splits)
  from read_size_Some [OF r5] obtain post where
    p5: "s5 = sz @ post" "number sz \<or> sz = ''-''"
        "sz = ''-'' \<or> post = [] \<or> \<not> is_digit (hd post)"
    by blast
  have t1: "token m" "s1 = m @ CHR '' '' # s2"
    using r1 by (simp_all add: ta token_def list_all_iff)
  have t2: "token p" "s2 = p @ CHR '' '' # s3"
    using r2 by (simp_all add: ta token_def list_all_iff)
  have t3: "list_all (\<lambda>c. \<not> is_space c) w" "s3 = w @ CHR '' '' # s4"
    using r3 by (simp_all add: ta list_all_iff)
  have t4: "number st" "s4 = st @ CHR '' '' # s5"
    using r4 by (simp_all add: tb number_def list_all_iff)
  have wne: "w \<noteq> []" using w(1) by auto
  then have wb: "w = butlast w @ [dquote]" using w(2) by (metis append_butlast_last_id)
  have "butlast w \<noteq> []" using w(1) by (cases w) (auto split: if_splits)
  moreover have "list_all (\<lambda>c. \<not> is_space c) (butlast w)"
    using t3(1) by (auto simp: list_all_iff dest: in_set_butlastD)
  ultimately have t3': "token (butlast w)" by (simp add: token_def)
  have "s = [] @ [dquote] @ m @ '' '' @ p @ '' '' @ butlast w @ [dquote] @ '' '' @ st @ '' ''
              @ sz @ post"
    using s t1(2) t2(2) t3(2) t4(2) p5(1) wb by (metis append_Cons append_Nil append_assoc)
  then have "recognized s [] m p (butlast w) st sz post"
    using t1(1) t2(1) t3' t4(1) p5(2) unfolding recognized_def by blast
  then show ?thesis using p5(3) by blast
qed

lemma recognized_first_reading:
  assumes "recognized s [] m p pr st sz post"
  shows "first_reading s
           = Some (m, p, st, if sz = ''-'' then ''-'' else sz @ takeWhile is_digit post)"
proof -
  have a: "\<not> in_class NonSpace CHR '' ''" and b: "\<not> in_class Digit CHR '' ''" by simp_all
  note ta = read_token_iff [of "in_class NonSpace" "CHR '' ''", OF a]
  note tb = read_token_iff [of "in_class Digit" "CHR '' ''", OF b]
  let ?s5 = "sz @ post"
  let ?s4 = "st @ CHR '' '' # ?s5"
  let ?w = "pr @ [dquote]"
  let ?s3 = "?w @ CHR '' '' # ?s4"
  let ?s2 = "p @ CHR '' '' # ?s3"
  let ?s1 = "m @ CHR '' '' # ?s2"
  have s: "s = dquote # ?s1" using assms by (simp add: recognized_def)
  have tm: "token m" and tp: "token p" and tpr: "token pr" and nst: "number st"
    and nsz: "number sz \<or> sz = ''-''"
    using assms by (simp_all add: recognized_def)
  have r1: "read_token (in_class NonSpace) CHR '' '' ?s1 = Some (m, ?s2)"
    using tm by (simp add: ta token_def list_all_iff)
  have r2: "read_token (in_class NonSpace) CHR '' '' ?s2 = Some (p, ?s3)"
    using tp by (simp add: ta token_def list_all_iff)
  have r3: "read_token (in_class NonSpace) CHR '' '' ?s3 = Some (?w, ?s4)"
    using tpr by (simp add: ta token_def list_all_iff)
  have w: "2 \<le> length ?w \<and> last ?w = dquote"
    using tpr by (cases pr) (auto simp: token_def)
  have r4: "read_token (in_class Digit) CHR '' '' ?s4 = Some (st, ?s5)"
    using nst by (simp add: tb number_def list_all_iff)
  have r5: "read_size ?s5 = Some (if sz = ''-'' then ''-'' else sz @ takeWhile is_digit post)"
    using nsz read_size_digits [of sz post] read_size_dash [of post] by auto
  show ?thesis
    unfolding s first_reading_def
    by (simp only: list.case simp_thms if_False if_True r1 r2 r3 r4 r5 w option.case
          prod.case option.map)
qed

lemma foldl_decimal:
  "foldl (\<lambda>a c. 10 * a + digit_value c) a s = a * 10 ^ length s + decimal s"
proof (induction s rule: rev_induct)
  case Nil
  then show ?case by (simp add: decimal_def)
next
  case (snoc c s)
  then show ?case by (simp add: decimal_def algebra_simps)
qed

text \<open>A string of digits that \<open>int\<close> converts: one within the limit on the digits.\<close>

definition convertible :: "string \<Rightarrow> bool" where
  "convertible s \<longleftrightarrow> length s \<le> int_max_str_digits"

lemma py_int_number:
  "number s \<Longrightarrow> py_int (Some s) = (if convertible s then Inr (decimal s) else Inl ValueError)"
  by (simp add: py_int_def number_def foldl_decimal convertible_def)

lemma str_split_hd:
  "str_split sep s \<noteq> [] \<and> hd (str_split sep s) = takeWhile (\<lambda>c. c \<noteq> sep) s"
  by (induction s) auto

lemma search_step:
  "search r (c # cs) =
     (case first_groups (rmatch r Map.empty (c # cs)) of
        None \<Rightarrow> search r cs
      | Some g \<Rightarrow> Some g)"
  by (auto simp: first_groups_def split: list.splits)

lemma search_Nil: "search r [] = first_groups (rmatch r Map.empty [])"
  by (auto simp: first_groups_def split: list.splits)

declare search.simps [simp del]

lemma search_SomeD:
  "search r s = Some g \<Longrightarrow>
     \<exists>i \<le> length s. first_groups (rmatch r Map.empty (drop i s)) = Some g \<and>
         (\<forall>j < i. first_groups (rmatch r Map.empty (drop j s)) = None)"
proof (induction s)
  case Nil
  then show ?case by (simp add: search_Nil)
next
  case (Cons c cs)
  show ?case
  proof (cases "first_groups (rmatch r Map.empty (c # cs))")
    case (Some g0)
    then have "g0 = g" using Cons.prems by (simp add: search_step)
    then have "first_groups (rmatch r Map.empty (drop 0 (c # cs))) = Some g" using Some by simp
    then show ?thesis by (intro exI [of _ 0]) simp
  next
    case None
    then have "search r cs = Some g" using Cons.prems by (simp add: search_step)
    from Cons.IH [OF this] obtain i where
      i: "i \<le> length cs" "first_groups (rmatch r Map.empty (drop i cs)) = Some g"
         "\<forall>j < i. first_groups (rmatch r Map.empty (drop j cs)) = None"
      by blast
    have "\<forall>j < Suc i. first_groups (rmatch r Map.empty (drop j (c # cs))) = None"
    proof (intro allI impI)
      fix j assume "j < Suc i"
      then show "first_groups (rmatch r Map.empty (drop j (c # cs))) = None"
        using None i(3) by (cases j) auto
    qed
    then show ?thesis using i(1,2) by (intro exI [of _ "Suc i"]) simp
  qed
qed

lemma search_NoneD:
  "search r s = None \<Longrightarrow> i \<le> length s \<Longrightarrow>
     first_groups (rmatch r Map.empty (drop i s)) = None"
proof (induction s arbitrary: i)
  case Nil
  then show ?case by (simp add: search_Nil)
next
  case (Cons c cs)
  have n: "first_groups (rmatch r Map.empty (c # cs)) = None" and s: "search r cs = None"
    using Cons.prems(1) by (auto simp: search_step split: option.splits)
  show ?case
  proof (cases i)
    case 0
    then show ?thesis using n by simp
  next
    case (Suc k)
    then show ?thesis using Cons.IH [OF s, of k] Cons.prems(2) by simp
  qed
qed

lemma search_SomeI:
  "i \<le> length s \<Longrightarrow> first_groups (rmatch r Map.empty (drop i s)) = Some g \<Longrightarrow>
     (\<And>j. j < i \<Longrightarrow> first_groups (rmatch r Map.empty (drop j s)) = None) \<Longrightarrow>
     search r s = Some g"
proof (induction s arbitrary: i)
  case Nil
  then show ?case by (simp add: search_Nil)
next
  case (Cons c cs)
  show ?case
  proof (cases i)
    case 0
    then show ?thesis using Cons.prems(2) by (simp add: search_step)
  next
    case (Suc k)
    have n: "first_groups (rmatch r Map.empty (c # cs)) = None"
      using Cons.prems(3) [of 0] Suc by simp
    have "search r cs = Some g"
    proof (rule Cons.IH [of k])
      show "k \<le> length cs" using Cons.prems(1) Suc by simp
      show "first_groups (rmatch r Map.empty (drop k cs)) = Some g"
        using Cons.prems(2) Suc by simp
      show "\<And>j. j < k \<Longrightarrow> first_groups (rmatch r Map.empty (drop j cs)) = None"
        using Cons.prems(3) [of "Suc j" for j] Suc by simp
    qed
    then show ?thesis using n by (simp add: search_step)
  qed
qed

lemma extract_of_reading:
  assumes "search log_pattern line = Some (reading_groups (m, p, st, sz))"
    and "number st" and "number sz \<or> sz = ''-''"
  shows "extract_log_info line =
           (if convertible st \<and> (sz = ''-'' \<or> convertible sz)
            then Inr (Some (reading_event m p st sz)) else Inl ValueError)"
proof -
  let ?g = "reading_groups (m, p, st, sz)"
  have g: "?g 1 = Some m" "?g 2 = Some p" "?g 3 = Some st" "?g 4 = Some sz"
    by (simp_all add: reading_groups_def)
  have 3: "py_int (Some st) = (if convertible st then Inr (decimal st) else Inl ValueError)"
    using assms(2) by (rule py_int_number)
  obtain u0 us where u: "str_split CHR ''?'' p = u0 # us"
    using str_split_hd [of "CHR ''?''" p] by (cases "str_split CHR ''?'' p") auto
  then have u0: "u0 = takeWhile (\<lambda>c. c \<noteq> CHR ''?'') p"
    using str_split_hd [of "CHR ''?''" p] by simp
  have 4: "(if Some sz = Some ''-'' then Inr 0 else py_int (Some sz))
           = (if sz = ''-'' then Inr 0
              else if convertible sz then Inr (decimal sz) else Inl ValueError)"
    using assms(3) by (auto simp: py_int_number)
  have e: "extract_log_info line =
        (case (if convertible st then Inr (decimal st) else Inl ValueError) of
           Inl e \<Rightarrow> Inl e
         | Inr st' \<Rightarrow>
             (case (if sz = ''-'' then Inr 0
                    else if convertible sz then Inr (decimal sz) else Inl ValueError) of
                Inl e \<Rightarrow> Inl e
              | Inr sz' \<Rightarrow>
                  Inr (Some \<lparr>method' = m, url = u0, status = st', size' = sz'\<rparr>)))"
    unfolding extract_log_info_def assms(1)
    by (simp only: option.case g 3 4 u list.case)
  show ?thesis unfolding e by (simp add: reading_event_def u0)
qed

lemma recognized_shift:
  "recognized line pre m p pr st sz post \<longleftrightarrow>
     length pre \<le> length line \<and> pre = take (length pre) line \<and>
     recognized (drop (length pre) line) [] m p pr st sz post"
proof
  assume "recognized line pre m p pr st sz post"
  then show "length pre \<le> length line \<and> pre = take (length pre) line \<and>
     recognized (drop (length pre) line) [] m p pr st sz post"
    by (auto simp: recognized_def)
next
  assume a: "length pre \<le> length line \<and> pre = take (length pre) line \<and>
     recognized (drop (length pre) line) [] m p pr st sz post"
  have "line = take (length pre) line @ drop (length pre) line" by simp
  then have "line = pre @ drop (length pre) line" using a by simp
  then show "recognized line pre m p pr st sz post"
    using a unfolding recognized_def by (metis append_Nil)
qed

lemma first_reading_at:
  "first_groups (rmatch log_pattern Map.empty (drop i line)) = None
     \<longleftrightarrow> first_reading (drop i line) = None"
  by (simp add: first_groups_log_pattern)

lemma reading_groups_inj:
  "reading_groups (m, p, st, sz) = reading_groups (m', p', st', sz')
     \<Longrightarrow> m = m' \<and> p = p' \<and> st = st' \<and> sz = sz'"
proof -
  assume e: "reading_groups (m, p, st, sz) = reading_groups (m', p', st', sz')"
  have "reading_groups (m, p, st, sz) 1 = reading_groups (m', p', st', sz') 1"
       "reading_groups (m, p, st, sz) 2 = reading_groups (m', p', st', sz') 2"
       "reading_groups (m, p, st, sz) 3 = reading_groups (m', p', st', sz') 3"
       "reading_groups (m, p, st, sz) 4 = reading_groups (m', p', st', sz') 4"
    using e by simp_all
  then show ?thesis by (simp add: reading_groups_def)
qed

lemma no_reading_search:
  assumes "\<not> (\<exists>pre m p pr st sz post. recognized line pre m p pr st sz post)"
  shows "search log_pattern line = None"
proof (rule ccontr)
  assume "search log_pattern line \<noteq> None"
  then obtain g where "search log_pattern line = Some g" by auto
  from search_SomeD [OF this] obtain i where
    i: "i \<le> length line" "first_groups (rmatch log_pattern Map.empty (drop i line)) = Some g"
    by blast
  then obtain m p st sz where "first_reading (drop i line) = Some (m, p, st, sz)"
    by (auto simp: first_groups_log_pattern)
  from first_reading_recognized [OF this] obtain pr post where
    "recognized (drop i line) [] m p pr st sz post" by blast
  then have "recognized line (take i line) m p pr st sz post"
    using i(1) by (subst recognized_shift) simp
  then show False using assms by blast
qed

lemma search_reading:
  assumes "search log_pattern line = Some g"
  shows "\<exists>pre m p pr st sz post.
           recognized line pre m p pr st sz post \<and> g = reading_groups (m, p, st, sz) \<and>
           longest_size sz post \<and>
           (\<forall>pre' m' p' pr' st' sz' post'.
              recognized line pre' m' p' pr' st' sz' post' \<longrightarrow> length pre \<le> length pre')"
proof -
  from search_SomeD [OF assms] obtain i where
    i: "i \<le> length line" "first_groups (rmatch log_pattern Map.empty (drop i line)) = Some g"
       "\<forall>j < i. first_groups (rmatch log_pattern Map.empty (drop j line)) = None"
    by blast
  then obtain m p st sz where
    f: "first_reading (drop i line) = Some (m, p, st, sz)" and g: "g = reading_groups (m, p, st, sz)"
    by (auto simp: first_groups_log_pattern)
  from first_reading_recognized [OF f] obtain pr post where
    r: "recognized (drop i line) [] m p pr st sz post" and l: "longest_size sz post"
    unfolding longest_size_def by blast
  have r': "recognized line (take i line) m p pr st sz post"
    using r i(1) by (subst recognized_shift) simp
  have "length (take i line) \<le> length pre'"
    if o: "recognized line pre' m' p' pr' st' sz' post'" for pre' m' p' pr' st' sz' post'
  proof (rule ccontr)
    assume "\<not> length (take i line) \<le> length pre'"
    then have lt: "length pre' < i" using i(1) by simp
    have "recognized (drop (length pre') line) [] m' p' pr' st' sz' post'"
      using o by (subst (asm) recognized_shift) simp
    then have "first_reading (drop (length pre') line) \<noteq> None"
      using recognized_first_reading by simp
    then show False using i(3) lt by (simp add: first_reading_at)
  qed
  then show ?thesis using r' g l by blast
qed

lemma reading_search:
  assumes "recognized line pre m p pr st sz post" and "longest_size sz post"
    and "\<And>pre' m' p' pr' st' sz' post'.
           recognized line pre' m' p' pr' st' sz' post' \<Longrightarrow> length pre \<le> length pre'"
  shows "search log_pattern line = Some (reading_groups (m, p, st, sz))"
proof (rule search_SomeI [of "length pre"])
  show "length pre \<le> length line" using assms(1) by (subst (asm) recognized_shift) simp
  have r: "recognized (drop (length pre) line) [] m p pr st sz post"
    using assms(1) by (subst (asm) recognized_shift) simp
  have "(if sz = ''-'' then ''-'' else sz @ takeWhile is_digit post) = sz"
  proof (cases "sz = ''-''")
    case True
    then show ?thesis by simp
  next
    case False
    then have "post = [] \<or> \<not> is_digit (hd post)" using assms(2) by (simp add: longest_size_def)
    then have "takeWhile is_digit post = []" by (cases post) auto
    then show ?thesis using False by simp
  qed
  then have "first_reading (drop (length pre) line) = Some (m, p, st, sz)"
    using recognized_first_reading [OF r] by simp
  then show "first_groups (rmatch log_pattern Map.empty (drop (length pre) line))
             = Some (reading_groups (m, p, st, sz))"
    by (simp add: first_groups_log_pattern)
next
  fix j assume j: "j < length pre"
  have le: "length pre \<le> length line" using assms(1) by (subst (asm) recognized_shift) simp
  show "first_groups (rmatch log_pattern Map.empty (drop j line)) = None"
  proof (rule ccontr)
    assume "first_groups (rmatch log_pattern Map.empty (drop j line)) \<noteq> None"
    then obtain m' p' st' sz' where "first_reading (drop j line) = Some (m', p', st', sz')"
      by (auto simp: first_groups_log_pattern)
    from first_reading_recognized [OF this] obtain pr' post' where
      "recognized (drop j line) [] m' p' pr' st' sz' post'" by blast
    then have "recognized line (take j line) m' p' pr' st' sz' post'"
      using j le by (subst recognized_shift) simp
    from assms(3) [OF this] show False using j le by simp
  qed
qed

lemma search_None_no_reading:
  assumes "search log_pattern line = None"
  shows "\<not> (\<exists>pre m p pr st sz post. recognized line pre m p pr st sz post)"
proof
  assume "\<exists>pre m p pr st sz post. recognized line pre m p pr st sz post"
  then obtain pre m p pr st sz post where r: "recognized line pre m p pr st sz post" by blast
  then have le: "length pre \<le> length line"
    and r': "recognized (drop (length pre) line) [] m p pr st sz post"
    by (subst (asm) recognized_shift, simp)+
  have "first_reading (drop (length pre) line) = None"
    using search_NoneD [OF assms le] by (simp add: first_reading_at)
  then show False using recognized_first_reading [OF r'] by simp
qed

text \<open>The reading of a line that the search takes: the one that starts leftmost, with the
  longest size field.\<close>

definition taken ::
  "string \<Rightarrow> string \<Rightarrow> string \<Rightarrow> string \<Rightarrow> string \<Rightarrow> string \<Rightarrow> string \<Rightarrow> string \<Rightarrow> bool" where
  "taken line pre m p pr st sz post \<longleftrightarrow>
     recognized line pre m p pr st sz post \<and> longest_size sz post \<and>
     (\<forall>pre' m' p' pr' st' sz' post'.
        recognized line pre' m' p' pr' st' sz' post' \<longrightarrow> length pre \<le> length pre')"

text \<open>
  What \<open>extract_log_info\<close> returns on every line. It returns \<open>None\<close> exactly on the lines
  with no reading in the recognized format. On a line with a reading it looks at the one the
  search takes: when the status and the size are within the limit on the digits it returns
  the event of that reading (the method, the path up to its first \<open>?\<close>, the status and the
  size as numbers, \<open>-\<close> as 0); when one of them is longer it raises \<open>ValueError\<close>.
\<close>

lemma extract_log_info_readings:
  "(extract_log_info line = Inr None \<longleftrightarrow>
      \<not> (\<exists>pre m p pr st sz post. recognized line pre m p pr st sz post)) \<and>
   (\<forall>ev. extract_log_info line = Inr (Some ev) \<longleftrightarrow>
      (\<exists>pre m p pr st sz post.
         taken line pre m p pr st sz post \<and> convertible st \<and> (sz = ''-'' \<or> convertible sz) \<and>
         ev = reading_event m p st sz)) \<and>
   (\<forall>e. extract_log_info line = Inl e \<longleftrightarrow>
      e = ValueError \<and>
      (\<exists>pre m p pr st sz post.
         taken line pre m p pr st sz post \<and>
         \<not> (convertible st \<and> (sz = ''-'' \<or> convertible sz))))"
proof (cases "search log_pattern line")
  case None
  have x: "extract_log_info line = Inr None" by (simp add: extract_log_info_def None)
  have n: "\<not> (\<exists>pre m p pr st sz post. recognized line pre m p pr st sz post)"
    using None by (rule search_None_no_reading)
  then have t: "\<not> (\<exists>pre m p pr st sz post. taken line pre m p pr st sz post)"
    unfolding taken_def by blast
  show ?thesis unfolding x using n t by auto
next
  case (Some g)
  from search_reading [OF Some] obtain pre m p pr st sz post where
    r: "recognized line pre m p pr st sz post" and g: "g = reading_groups (m, p, st, sz)" and
    l: "longest_size sz post" and
    f: "\<forall>pre' m' p' pr' st' sz' post'.
          recognized line pre' m' p' pr' st' sz' post' \<longrightarrow> length pre \<le> length pre'"
    by blast
  have t: "taken line pre m p pr st sz post" using r l f unfolding taken_def by blast
  let ?ok = "convertible st \<and> (sz = ''-'' \<or> convertible sz)"
  have "number st" "number sz \<or> sz = ''-''" using r by (simp_all add: recognized_def)
  then have x: "extract_log_info line =
                  (if ?ok then Inr (Some (reading_event m p st sz)) else Inl ValueError)"
    using extract_of_reading [of line m p st sz] Some g by simp
  have same: "m2 = m \<and> p2 = p \<and> st2 = st \<and> sz2 = sz"
    if t2: "taken line pre2 m2 p2 pr2 st2 sz2 post2" for pre2 m2 p2 pr2 st2 sz2 post2
  proof -
    have "search log_pattern line = Some (reading_groups (m2, p2, st2, sz2))"
      using t2 unfolding taken_def
      by (intro reading_search [of line pre2 m2 p2 pr2 st2 sz2 post2]) blast+
    then have "reading_groups (m2, p2, st2, sz2) = reading_groups (m, p, st, sz)"
      using Some g by simp
    then show ?thesis by (rule reading_groups_inj)
  qed
  have 1: "extract_log_info line = Inr None \<longleftrightarrow>
      \<not> (\<exists>pre m p pr st sz post. recognized line pre m p pr st sz post)"
  proof -
    have "extract_log_info line \<noteq> Inr None" unfolding x by simp
    then show ?thesis using r by blast
  qed
  have 2: "extract_log_info line = Inr (Some ev) \<longleftrightarrow>
      (\<exists>pre m p pr st sz post.
         taken line pre m p pr st sz post \<and> convertible st \<and> (sz = ''-'' \<or> convertible sz) \<and>
         ev = reading_event m p st sz)" for ev
  proof
    assume a: "extract_log_info line = Inr (Some ev)"
    then have "?ok" unfolding x by (simp split: if_splits)
    moreover have "ev = reading_event m p st sz" using a unfolding x by (simp split: if_splits)
    ultimately show "\<exists>pre m p pr st sz post.
         taken line pre m p pr st sz post \<and> convertible st \<and> (sz = ''-'' \<or> convertible sz) \<and>
         ev = reading_event m p st sz"
      using t by blast
  next
    assume "\<exists>pre m p pr st sz post.
         taken line pre m p pr st sz post \<and> convertible st \<and> (sz = ''-'' \<or> convertible sz) \<and>
         ev = reading_event m p st sz"
    then obtain pre2 m2 p2 pr2 st2 sz2 post2 where
      t2: "taken line pre2 m2 p2 pr2 st2 sz2 post2" and
      o2: "convertible st2 \<and> (sz2 = ''-'' \<or> convertible sz2)" and
      e2: "ev = reading_event m2 p2 st2 sz2"
      by blast
    have "m2 = m \<and> p2 = p \<and> st2 = st \<and> sz2 = sz" using t2 by (rule same)
    then show "extract_log_info line = Inr (Some ev)" unfolding x using o2 e2 by simp
  qed
  have 3: "extract_log_info line = Inl e \<longleftrightarrow>
      e = ValueError \<and>
      (\<exists>pre m p pr st sz post.
         taken line pre m p pr st sz post \<and>
         \<not> (convertible st \<and> (sz = ''-'' \<or> convertible sz)))" for e
  proof
    assume a: "extract_log_info line = Inl e"
    then have "\<not> ?ok" unfolding x by (simp split: if_splits)
    moreover have "e = ValueError" using a unfolding x by (simp split: if_splits)
    ultimately show "e = ValueError \<and>
      (\<exists>pre m p pr st sz post.
         taken line pre m p pr st sz post \<and>
         \<not> (convertible st \<and> (sz = ''-'' \<or> convertible sz)))"
      using t by blast
  next
    assume "e = ValueError \<and>
      (\<exists>pre m p pr st sz post.
         taken line pre m p pr st sz post \<and>
         \<not> (convertible st \<and> (sz = ''-'' \<or> convertible sz)))"
    then obtain pre2 m2 p2 pr2 st2 sz2 post2 where
      e: "e = ValueError" and
      t2: "taken line pre2 m2 p2 pr2 st2 sz2 post2" and
      o2: "\<not> (convertible st2 \<and> (sz2 = ''-'' \<or> convertible sz2))"
      by blast
    have "m2 = m \<and> p2 = p \<and> st2 = st \<and> sz2 = sz" using t2 by (rule same)
    then have "\<not> ?ok" using o2 by simp
    then show "extract_log_info line = Inl e" unfolding x using e by simp
  qed
  show ?thesis using 1 2 3 by blast
qed

text \<open>Three lines that the parser handles: a request, a request with the size \<open>-\<close> inside
  a longer line, and text that is no request.\<close>

definition line_get :: string where
  "line_get = [dquote] @ ''GET /foo?x=1 HTTP/1.1'' @ [dquote] @ '' 200 1234''"

definition line_dash :: string where
  "line_dash = ''127.0.0.1 - - [04/Nov/2026] '' @ [dquote] @ ''GET /foo?x=1 HTTP/1.1'' @ [dquote]
                 @ '' 200 - -''"

lemma extract_line_get:
  "extract_log_info line_get
     = Inr (Some \<lparr>method' = ''GET'', url = ''/foo'', status = 200, size' = 1234\<rparr>)"
  by (simp add: extract_log_info_def search.simps line_get_def log_pattern_def dquote_def
        is_space_def is_digit_def py_int_def digit_value_def int_max_str_digits_def)

lemma extract_line_dash:
  "extract_log_info line_dash
     = Inr (Some \<lparr>method' = ''GET'', url = ''/foo'', status = 200, size' = 0\<rparr>)"
  by (simp add: extract_log_info_def search.simps line_dash_def log_pattern_def dquote_def
        is_space_def is_digit_def py_int_def digit_value_def int_max_str_digits_def)

lemma extract_garbage: "extract_log_info ''garbage text'' = Inr None"
  by (simp add: extract_log_info_def search.simps log_pattern_def dquote_def)

text \<open>A request whose size field has 4301 digits.\<close>

definition long_size :: string where
  "long_size = replicate 4301 CHR ''1''"

definition long_line :: string where
  "long_line = [dquote] @ ''GET /foo HTTP/1.1'' @ [dquote] @ '' 200 '' @ long_size"

text \<open>
  Claim C1 fails on the code. The line \<open>"GET /foo HTTP/1.1" 200 11...1\<close> with a size of 4301
  digits is in the recognized format, with the method \<open>GET\<close>, the path \<open>/foo\<close>, the status
  \<open>200\<close> and that size. The pattern matches it, \<open>int\<close> at line 105 raises \<open>ValueError\<close> on
  the size, and \<open>extract_log_info\<close> returns no event and does not return \<open>None\<close>: the
  exception leaves it.
\<close>

theorem extract_log_info_long_size:
  "recognized long_line [] ''GET'' ''/foo'' ''HTTP/1.1'' ''200'' long_size [] \<and>
   extract_log_info long_line = Inl ValueError"
proof -
  have d: "list_all is_digit long_size"
    by (simp add: long_size_def list_all_iff is_digit_def)
  have ne: "long_size \<noteq> []" by (simp add: long_size_def)
  have r: "recognized long_line [] ''GET'' ''/foo'' ''HTTP/1.1'' ''200'' long_size []"
    using d ne
    by (simp add: recognized_def long_line_def token_def number_def is_space_def is_digit_def)
  have "longest_size long_size []" by (simp add: longest_size_def)
  then have "search log_pattern long_line
             = Some (reading_groups (''GET'', ''/foo'', ''200'', long_size))"
    using r by (intro reading_search [of long_line "[]" _ _ "''HTTP/1.1''" _ _ "[]"]) simp_all
  moreover have "number ''200''" by (simp add: number_def is_digit_def)
  moreover have "number long_size" using d ne by (simp add: number_def)
  ultimately have "extract_log_info long_line =
           (if convertible ''200'' \<and> (long_size = ''-'' \<or> convertible long_size)
            then Inr (Some (reading_event ''GET'' ''/foo'' ''200'' long_size))
            else Inl ValueError)"
    by (intro extract_of_reading) simp_all
  moreover have "\<not> convertible long_size"
    by (simp add: convertible_def long_size_def int_max_str_digits_def)
  moreover have "long_size \<noteq> ''-''"
  proof
    assume "long_size = ''-''"
    then have "length long_size = length ''-''" by (rule arg_cong)
    then show False by (simp add: long_size_def)
  qed
  ultimately show ?thesis using r by simp
qed

section \<open>The physics space and the live objects stay in step\<close>

lemma space_add_fresh:
  "set xs \<inter> sp = {} \<Longrightarrow> distinct xs \<Longrightarrow> space_add xs sp = Inr (sp \<union> set xs)"
  by (induction xs arbitrary: sp) auto

lemma space_remove_present:
  "set xs \<subseteq> sp \<Longrightarrow> distinct xs \<Longrightarrow> space_remove xs sp = Inr (sp - set xs)"
proof (induction xs arbitrary: sp)
  case Nil
  then show ?case by simp
next
  case (Cons a xs)
  then have "space_remove xs (sp - {a}) = Inr (sp - {a} - set xs)"
    by (intro Cons.IH) auto
  moreover have "sp - {a} - set xs = sp - set (a # xs)" by auto
  ultimately show ?case using Cons.prems by simp
qed

lemma distinct_added_objs: "distinct (added_objs m i)"
  by (simp add: added_objs_def)

lemma distinct_removed_objs: "distinct (removed_objs m i)"
  by (simp add: removed_objs_def)

lemma set_removed_objs: "set (removed_objs m i) = set (added_objs m i)"
  by (auto simp: removed_objs_def added_objs_def)

lemma obj_of_ident:
  "x \<in> set (added_objs m i) \<Longrightarrow> x \<in> {BodyOf i, ArrowShape i, Shape1 i, Shape2 i, MainShape i}"
  by (auto simp: added_objs_def split: if_splits)

lemma added_objs_disjoint:
  "i \<noteq> j \<Longrightarrow> set (added_objs m i) \<inter> set (added_objs m' j) = {}"
  by (auto simp: added_objs_def split: if_splits)

lemma added_objs_not_wall:
  "LeftWall \<notin> set (added_objs m i)" "RightWall \<notin> set (added_objs m i)"
  by (auto simp: added_objs_def)

lemma fresh_objs:
  assumes "consistent v"
  shows "set (added_objs m (next_ident v)) \<inter> space v = {}"
proof -
  have "\<And>b. b \<in> set (balls v) \<Longrightarrow> ident b \<noteq> next_ident v"
    using assms by (auto simp: consistent_def list_all_iff)
  then have "\<And>b. b \<in> set (balls v) \<Longrightarrow> set (added_objs m (next_ident v)) \<inter> ball_objs b = {}"
    using added_objs_disjoint unfolding ball_objs_def by (metis)
  then show ?thesis
    using assms added_objs_not_wall [of m "next_ident v"]
    by (auto simp: consistent_def)
qed

section \<open>What one spawn does\<close>

lemma py_truediv_pos:
  "0 < b \<Longrightarrow>
     py_truediv a b = (if float_overflows (of_int a / of_int b) then Inl OverflowError
                       else Inr (of_int a / of_int b))"
  by (simp add: py_truediv_def)

lemma ball_radius_positive:
  assumes "0 < mss"
  shows "ball_radius mss m st sz =
           (if float_overflows (of_int sz / of_int mss) then Inl OverflowError
            else Inr (if st = 404 \<or> is_post_or_delete m then 15
                      else 15 + min (of_int sz / of_int mss) 1.0 * (of_int MAX_BALL_RADIUS - 15)))"
proof -
  have "min (of_int sz / of_int mss) (1::real) * 45 \<le> 45"
    by simp
  then show ?thesis
    using assms by (simp add: ball_radius_def py_truediv_pos Let_def MAX_BALL_RADIUS_def)
qed

lemma ball_radius_le: "ball_radius mss m st sz = Inr r \<Longrightarrow> r \<le> of_int MAX_BALL_RADIUS"
  by (auto simp: ball_radius_def Let_def MAX_BALL_RADIUS_def split: if_splits sum.splits)

lemma ball_radius_no_zero_division: "ball_radius mss m st sz \<noteq> Inl ZeroDivisionError"
  by (auto simp: ball_radius_def py_truediv_def Let_def split: if_splits sum.splits)

lemma new_ball_Inr:
  "new_ball d v e = Inr b \<Longrightarrow>
     method' b = method' e \<and> url b = url e \<and> status b = status e \<and> size' b = size' e \<and>
     ident b = next_ident v \<and> spawn_time b = d_time d \<and>
     ball_radius (max_size_seen v) (method' e) (status e) (size' e) = Inr (radius b)"
  by (auto simp: new_ball_def Let_def split: sum.splits)

lemma new_ball_Inl:
  "new_ball d v e = Inl err \<longleftrightarrow>
     ball_radius (max_size_seen v) (method' e) (status e) (size' e) = Inl err"
  by (auto simp: new_ball_def Let_def split: sum.splits)

lemma new_ball_queue [simp]: "new_ball d (v\<lparr>log_queue := q\<rparr>) e = new_ball d v e"
  by (simp add: new_ball_def split: sum.splits)

text \<open>The state after a spawn that made the ball \<open>b\<close> from the event \<open>e\<close>.\<close>

definition spawned :: "ball \<Rightarrow> log_event \<Rightarrow> visualizer \<Rightarrow> visualizer" where
  "spawned b e v =
     v\<lparr>space := space v \<union> set (added_objs (method' e) (next_ident v)),
       log_queue := tl (log_queue v),
       next_ident := Suc (next_ident v),
       balls := balls v @ [b],
       max_size_seen := max (max_size_seen v) (size' e),
       recent_urls := recent_urls v @ [(url e, size' e)],
       url_positions := track_url e (url_positions v)\<rparr>"

lemma spawn_consistent:
  assumes "consistent v" and "log_queue v = e # q"
  shows "spawn d v = (case new_ball d v e of Inl err \<Rightarrow> Inl err | Inr b \<Rightarrow> Inr (spawned b e v))"
proof (cases "new_ball d v e")
  case (Inl err)
  then show ?thesis
    using assms(2) by (simp add: spawn_def queue_get_def Ball_init_def)
next
  case (Inr b)
  then have f: "method' b = method' e" "ident b = next_ident v"
    using new_ball_Inr [of d v e b] by simp_all
  have "space_add (added_objs (method' e) (next_ident v)) (space v)
        = Inr (space v \<union> set (added_objs (method' e) (next_ident v)))"
    using fresh_objs [OF assms(1)] distinct_added_objs by (intro space_add_fresh) auto
  then show ?thesis
    using assms(2) Inr f by (simp add: spawn_def queue_get_def Ball_init_def spawned_def)
qed

lemma consistent_spawned:
  assumes "consistent v" and "new_ball d v e = Inr b"
  shows "consistent (spawned b e v)"
proof -
  have f: "method' b = method' e" "ident b = next_ident v"
    using new_ball_Inr [OF assms(2)] by simp_all
  have lt: "\<And>x. x \<in> set (balls v) \<Longrightarrow> ident x < next_ident v"
    using assms(1) by (auto simp: consistent_def list_all_iff)
  have "next_ident v \<notin> ident ` set (balls v)"
    using lt by fastforce
  then have d: "distinct (map ident (balls (spawned b e v)))"
    using assms(1) f by (simp add: consistent_def spawned_def)
  have l: "list_all (\<lambda>x. ident x < next_ident (spawned b e v)) (balls (spawned b e v))"
    using lt f by (auto simp: spawned_def list_all_iff less_Suc_eq)
  have s: "space (spawned b e v) =
        {LeftWall, RightWall} \<union> \<Union> (set (map ball_objs (balls (spawned b e v))))"
    using assms(1) f by (auto simp: consistent_def spawned_def ball_objs_def)
  show ?thesis using d l s unfolding consistent_def by blast
qed

section \<open>The drain loop and the removal of a ball\<close>

text \<open>The number of events the drain loop takes, and the event a ball was made from.\<close>

definition consumed :: "visualizer \<Rightarrow> nat" where
  "consumed v = min (length (log_queue v)) (MAX_BALLS - length (balls v))"

definition event_of :: "ball \<Rightarrow> log_event" where
  "event_of b = \<lparr>method' = method' b, url = url b, status = status b, size' = size' b\<rparr>"

text \<open>An event whose size, divided by \<open>mss\<close>, is within the floats.\<close>

definition in_range :: "int \<Rightarrow> log_event \<Rightarrow> bool" where
  "in_range mss e \<longleftrightarrow> \<not> float_overflows (of_int (size' e) / of_int mss)"

lemma event_of_new_ball: "new_ball d v e = Inr b \<Longrightarrow> event_of b = e"
  using new_ball_Inr [of d v e b] by (simp add: event_of_def)

lemma in_range_mono:
  assumes "0 < m" and "m \<le> m'" and "in_range m e"
  shows "in_range m' e"
proof -
  let ?s = "\<bar>of_int (size' e)\<bar> :: real"
  have "?s / of_int m' \<le> ?s / of_int m"
    using assms(1,2) by (intro divide_left_mono) simp_all
  moreover have "\<bar>of_int (size' e) / of_int m'\<bar> = ?s / of_int m'"
    "\<bar>of_int (size' e) / of_int m\<bar> = ?s / of_int m"
    using assms(1,2) by simp_all
  moreover have "\<bar>of_int (size' e) / of_int m\<bar> < (2 ^ 1024 - 2 ^ 970 :: real)"
    using assms(3) unfolding in_range_def float_overflows_def by linarith
  ultimately have "\<bar>of_int (size' e) / of_int m'\<bar> < (2 ^ 1024 - 2 ^ 970 :: real)"
    by linarith
  then show ?thesis unfolding in_range_def float_overflows_def by linarith
qed

lemma new_ball_in_range:
  assumes "0 < max_size_seen v"
  shows "(\<exists>b. new_ball d v e = Inr b) \<longleftrightarrow> in_range (max_size_seen v) e"
    and "\<not> in_range (max_size_seen v) e \<Longrightarrow> new_ball d v e = Inl OverflowError"
  using ball_radius_positive [OF assms, of "method' e" "status e" "size' e"]
  by (auto simp: new_ball_def in_range_def split: sum.splits)

lemma drain_returned:
  assumes "consistent v" and "drain env v = Inr v'"
  shows "consistent v' \<and>
           length (balls v') = length (balls v) + consumed v \<and>
           log_queue v' = drop (consumed v) (log_queue v) \<and>
           map event_of (balls v') = map event_of (balls v) @ take (consumed v) (log_queue v) \<and>
           max_size_seen v \<le> max_size_seen v'"
  using assms
proof (induction "length (log_queue v)" arbitrary: v)
  case 0
  then show ?case by (simp add: drain.simps [of env v] may_spawn_def consumed_def)
next
  case (Suc n)
  then obtain e q where eq: "log_queue v = e # q" by (cases "log_queue v") auto
  show ?case
  proof (cases "length (balls v) < MAX_BALLS")
    case False
    then show ?thesis
      using Suc.prems by (simp add: drain.simps [of env v] may_spawn_def consumed_def)
  next
    case True
    then have ms: "may_spawn v" using eq by (simp add: may_spawn_def)
    obtain v1 where sp: "spawn (env (next_ident v)) v = Inr v1" and d: "drain env v1 = Inr v'"
      using Suc.prems(2) ms by (auto simp: drain.simps [of env v] split: sum.splits)
    obtain b where nb: "new_ball (env (next_ident v)) v e = Inr b" and v1: "v1 = spawned b e v"
      using sp spawn_consistent [OF Suc.prems(1) eq, of "env (next_ident v)"]
      by (auto split: sum.splits)
    have c1: "consistent v1" unfolding v1 using Suc.prems(1) nb by (rule consistent_spawned)
    have q1: "log_queue v1 = q" using eq by (simp add: v1 spawned_def)
    have b1: "balls v1 = balls v @ [b]" by (simp add: v1 spawned_def)
    have m1: "max_size_seen v \<le> max_size_seen v1" by (simp add: v1 spawned_def)
    have eb: "event_of b = e" using nb by (rule event_of_new_ball)
    have "n = length (log_queue v1)" using Suc.hyps(2) eq q1 by simp
    from Suc.hyps(1) [OF this c1 d] have
      c: "consistent v'" and
      l: "length (balls v') = length (balls v1) + consumed v1" and
      lq: "log_queue v' = drop (consumed v1) (log_queue v1)" and
      ev: "map event_of (balls v') = map event_of (balls v1) @ take (consumed v1) (log_queue v1)" and
      mx: "max_size_seen v1 \<le> max_size_seen v'"
      by simp_all
    have k: "consumed v = Suc (consumed v1)"
      using True eq q1 b1 by (simp add: consumed_def)
    have "length (balls v') = length (balls v) + consumed v"
      using l k b1 by simp
    moreover have "log_queue v' = drop (consumed v) (log_queue v)"
      using lq k eq q1 by simp
    moreover have "map event_of (balls v') = map event_of (balls v) @ take (consumed v) (log_queue v)"
      using ev k eq q1 b1 eb by simp
    moreover have "max_size_seen v \<le> max_size_seen v'" using m1 mx by simp
    ultimately show ?thesis using c by blast
  qed
qed

lemma drain_returns:
  assumes "consistent v" and "0 < max_size_seen v"
    and "list_all (in_range (max_size_seen v)) (take (consumed v) (log_queue v))"
  shows "\<exists>v'. drain env v = Inr v'"
  using assms
proof (induction "length (log_queue v)" arbitrary: v)
  case 0
  then show ?case by (simp add: drain.simps [of env v] may_spawn_def)
next
  case (Suc n)
  then obtain e q where eq: "log_queue v = e # q" by (cases "log_queue v") auto
  show ?case
  proof (cases "length (balls v) < MAX_BALLS")
    case False
    then show ?thesis by (simp add: drain.simps [of env v] may_spawn_def)
  next
    case True
    then have ms: "may_spawn v" using eq by (simp add: may_spawn_def)
    have k: "consumed v = Suc (min (length q) (MAX_BALLS - Suc (length (balls v))))"
      using True eq by (simp add: consumed_def)
    have ir: "in_range (max_size_seen v) e"
      and irq: "list_all (in_range (max_size_seen v))
                  (take (min (length q) (MAX_BALLS - Suc (length (balls v)))) q)"
      using Suc.prems(3) eq unfolding k by simp_all
    obtain b where nb: "new_ball (env (next_ident v)) v e = Inr b"
      using new_ball_in_range(1) [OF Suc.prems(2)] ir by blast
    let ?v1 = "spawned b e v"
    have sp: "spawn (env (next_ident v)) v = Inr ?v1"
      using spawn_consistent [OF Suc.prems(1) eq, of "env (next_ident v)"] nb by simp
    have c1: "consistent ?v1" using Suc.prems(1) nb by (rule consistent_spawned)
    have q1: "log_queue ?v1 = q" using eq by (simp add: spawned_def)
    have m1: "max_size_seen v \<le> max_size_seen ?v1" by (simp add: spawned_def)
    then have p1: "0 < max_size_seen ?v1" using Suc.prems(2) by simp
    have k1: "consumed ?v1 = min (length q) (MAX_BALLS - Suc (length (balls v)))"
      using q1 by (simp add: consumed_def spawned_def)
    have "list_all (in_range (max_size_seen ?v1)) (take (consumed ?v1) (log_queue ?v1))"
      unfolding k1 q1 using irq in_range_mono [OF Suc.prems(2) m1]
      by (auto simp: list_all_iff)
    moreover have "n = length (log_queue ?v1)" using Suc.hyps(2) eq q1 by simp
    ultimately obtain v' where "drain env ?v1 = Inr v'"
      using Suc.hyps(1) [of ?v1] c1 p1 by blast
    then show ?thesis using ms sp by (simp add: drain.simps [of env v])
  qed
qed

lemma remove_first_distinct:
  "distinct (map ident bs) \<Longrightarrow> b \<in> set bs \<Longrightarrow> remove_first (ident b) bs = filter (\<lambda>x. x \<noteq> b) bs"
proof (induction bs)
  case Nil
  then show ?case by simp
next
  case (Cons a bs)
  show ?case
  proof (cases "a = b")
    case True
    then have "\<And>x. x \<in> set bs \<Longrightarrow> x \<noteq> b" using Cons.prems by auto
    then have "filter (\<lambda>x. x \<noteq> b) bs = bs" by (simp add: filter_id_conv)
    then show ?thesis using True by simp
  next
    case False
    then have "b \<in> set bs" using Cons.prems by simp
    then have "ident a \<noteq> ident b" using Cons.prems by force
    then show ?thesis using False Cons \<open>b \<in> set bs\<close> by simp
  qed
qed

definition without :: "ball \<Rightarrow> visualizer \<Rightarrow> visualizer" where
  "without b v = v\<lparr>space := space v - ball_objs b, balls := filter (\<lambda>x. x \<noteq> b) (balls v)\<rparr>"

lemma ball_objs_disjoint:
  "ident a \<noteq> ident b \<Longrightarrow> ball_objs a \<inter> ball_objs b = {}"
  unfolding ball_objs_def by (rule added_objs_disjoint)

lemma discard_consistent:
  assumes "consistent v" and "b \<in> set (balls v)"
  shows "discard b v = Inr (without b v)"
proof -
  have "ball_objs b \<subseteq> space v" using assms by (auto simp: consistent_def)
  then have "space_remove (removed_objs (method' b) (ident b)) (space v) = Inr (space v - ball_objs b)"
    using space_remove_present [of "removed_objs (method' b) (ident b)" "space v"]
    by (simp add: set_removed_objs ball_objs_def distinct_removed_objs)
  moreover have "list_remove b (balls v) = Inr (filter (\<lambda>x. x \<noteq> b) (balls v))"
    using assms remove_first_distinct [of "balls v" b]
    by (auto simp: list_remove_def consistent_def list_ex_iff)
  ultimately show ?thesis by (simp add: discard_def without_def)
qed

lemma consistent_without:
  assumes "consistent v" and "b \<in> set (balls v)"
  shows "consistent (without b v)"
proof -
  have d: "distinct (map ident (balls v))" using assms by (simp add: consistent_def)
  have other: "\<And>x. x \<in> set (balls v) \<Longrightarrow> x \<noteq> b \<Longrightarrow> ident x \<noteq> ident b"
    using d assms(2) by (meson distinct_map inj_onD)
  have nw: "LeftWall \<notin> ball_objs b" "RightWall \<notin> ball_objs b"
    by (simp_all add: ball_objs_def added_objs_not_wall)
  have "space v - ball_objs b =
        {LeftWall, RightWall} \<union> \<Union> (set (map ball_objs (filter (\<lambda>x. x \<noteq> b) (balls v))))"
  proof -
    have sv: "space v = {LeftWall, RightWall} \<union> \<Union> (set (map ball_objs (balls v)))"
      using assms by (simp add: consistent_def)
    have "\<And>x. x \<in> set (balls v) \<Longrightarrow> x \<noteq> b \<Longrightarrow> ball_objs x \<inter> ball_objs b = {}"
      using other ball_objs_disjoint by blast
    then show ?thesis unfolding sv using nw by auto
  qed
  moreover have "distinct (map ident (filter (\<lambda>x. x \<noteq> b) (balls v)))"
    using d by (simp add: distinct_map_filter)
  moreover have "list_all (\<lambda>x. ident x < next_ident v) (filter (\<lambda>x. x \<noteq> b) (balls v))"
    using assms by (auto simp: consistent_def list_all_iff)
  ultimately show ?thesis by (simp add: consistent_def without_def)
qed

section \<open>The reaping pass, and whole runs\<close>

text \<open>The branch of lines 306 to 324 a ball takes, read off its position and age.\<close>

definition reap_branch :: "real \<Rightarrow> ball \<Rightarrow> branch" where
  "reap_branch t b = (if funnel_exit b then Exit else if too_old t b then Despawn else Keep)"

lemma reap_ball_consistent:
  assumes "consistent v" and "b \<in> set (balls v)"
  shows "reap_ball t b v =
           Inr (reap_branch t b, if reap_branch t b = Keep then v else without b v)"
  using discard_consistent [OF assms] by (simp add: reap_ball_def reap_branch_def)

lemma reap_loop_consistent:
  assumes "consistent v" and "set bs \<subseteq> set (balls v)" and "distinct bs"
  shows "\<exists>v'. reap_loop t bs v = Inr (map (reap_branch t) bs, v') \<and> consistent v' \<and>
           balls v' = filter (\<lambda>b. b \<notin> set bs \<or> reap_branch t b = Keep) (balls v) \<and>
           v' = v\<lparr>space := space v', balls := balls v'\<rparr>"
  using assms
proof (induction bs arbitrary: v)
  case Nil
  then show ?case by simp
next
  case (Cons b bs)
  have bin: "b \<in> set (balls v)" and bnot: "b \<notin> set bs" using Cons.prems by auto
  note rb = reap_ball_consistent [OF Cons.prems(1) bin, of t]
  show ?case
  proof (cases "reap_branch t b = Keep")
    case True
    from Cons.IH [of v] Cons.prems obtain v' where
      r: "reap_loop t bs v = Inr (map (reap_branch t) bs, v')" and c: "consistent v'" and
      f: "balls v' = filter (\<lambda>x. x \<notin> set bs \<or> reap_branch t x = Keep) (balls v)" and
      u: "v' = v\<lparr>space := space v', balls := balls v'\<rparr>"
      by auto
    have "filter (\<lambda>x. x \<notin> set bs \<or> reap_branch t x = Keep) (balls v)
          = filter (\<lambda>x. x \<notin> set (b # bs) \<or> reap_branch t x = Keep) (balls v)"
      using True by (intro filter_cong) auto
    then show ?thesis using True rb r c f u by simp
  next
    case False
    let ?w = "without b v"
    have cw: "consistent ?w" using Cons.prems(1) bin by (rule consistent_without)
    have sub: "set bs \<subseteq> set (balls ?w)"
      using Cons.prems(2) bnot by (auto simp: without_def)
    from Cons.IH [OF cw sub] Cons.prems(3) obtain v' where
      r: "reap_loop t bs ?w = Inr (map (reap_branch t) bs, v')" and c: "consistent v'" and
      f: "balls v' = filter (\<lambda>x. x \<notin> set bs \<or> reap_branch t x = Keep) (balls ?w)" and
      u: "v' = ?w\<lparr>space := space v', balls := balls v'\<rparr>"
      by auto
    have "filter (\<lambda>x. x \<notin> set bs \<or> reap_branch t x = Keep) (balls ?w)
          = filter (\<lambda>x. x \<notin> set (b # bs) \<or> reap_branch t x = Keep) (balls v)"
      using False by (auto simp: without_def intro: filter_cong)
    moreover have "v' = v\<lparr>space := space v', balls := balls v'\<rparr>"
      using u by (simp add: without_def)
    ultimately show ?thesis using False rb r c f by simp
  qed
qed

definition reaped :: "real \<Rightarrow> visualizer \<Rightarrow> visualizer" where
  "reaped t v =
     (let bs = filter (\<lambda>b. reap_branch t b = Keep) (balls v)
      in v\<lparr>space := {LeftWall, RightWall} \<union> \<Union> (set (map ball_objs bs)), balls := bs\<rparr>)"

lemma reap_consistent:
  assumes "consistent v"
  shows "reap t v = Inr (map (reap_branch t) (balls v), reaped t v) \<and> consistent (reaped t v)"
proof -
  have "distinct (balls v)"
    using assms by (auto simp: consistent_def distinct_map)
  with reap_loop_consistent [OF assms, of "balls v" t] obtain v' where
    r: "reap_loop t (balls v) v = Inr (map (reap_branch t) (balls v), v')" and
    c: "consistent v'" and
    f: "balls v' = filter (\<lambda>b. b \<notin> set (balls v) \<or> reap_branch t b = Keep) (balls v)" and
    u: "v' = v\<lparr>space := space v', balls := balls v'\<rparr>"
    by auto
  have f': "balls v' = filter (\<lambda>b. reap_branch t b = Keep) (balls v)"
    unfolding f by (intro filter_cong) auto
  have "space v' = {LeftWall, RightWall} \<union> \<Union> (set (map ball_objs (balls v')))"
    using c by (simp add: consistent_def)
  then have "v' = reaped t v"
    using u f' by (simp add: reaped_def Let_def)
  then show ?thesis using r c by (simp add: reap_def)
qed

lemma consistent_put: "consistent v \<Longrightarrow> consistent (put e v)"
  by (simp add: consistent_def put_def)

lemma consistent_reset: "consistent v \<Longrightarrow> consistent (reset_scale v)"
  by (simp add: consistent_def reset_scale_def)

lemma consistent_physics: "consistent v \<Longrightarrow> consistent (physics f v)"
  by (simp add: consistent_def physics_def ball_objs_def list_all_iff comp_def)

lemma consistent_init: "consistent init"
  by (simp add: consistent_def init_def)

text \<open>A spawn in a consistent state: the constructor raises, or the ball joins the state.\<close>

lemma exec_Spawn_consistent:
  assumes "consistent v" and "may_spawn v"
  shows "exec (Spawn d) v =
           (case new_ball d v (hd (log_queue v)) of
              Inl err \<Rightarrow> Inl err
            | Inr b \<Rightarrow> Inr (spawned b (hd (log_queue v)) v))"
proof -
  obtain e q where q: "log_queue v = e # q"
    using assms(2) by (cases "log_queue v") (auto simp: may_spawn_def)
  have h: "hd (log_queue v) = e" using q by simp
  show ?thesis unfolding h using assms(2) spawn_consistent [OF assms(1) q, of d] by simp
qed

lemma exec_consistent:
  assumes "consistent v" and "exec a v = Inr v'"
  shows "consistent v'"
proof (cases a)
  case (Put e)
  then show ?thesis using assms by (auto simp: consistent_put)
next
  case Reset
  then show ?thesis using assms by (auto simp: consistent_reset)
next
  case (Spawn d)
  show ?thesis
  proof (cases "may_spawn v")
    case True
    then show ?thesis
      using Spawn assms exec_Spawn_consistent [OF assms(1) True, of d]
        consistent_spawned [OF assms(1), of d "hd (log_queue v)"]
      by (auto split: sum.splits)
  next
    case False
    then show ?thesis using Spawn assms by simp
  qed
next
  case (Physics f)
  then show ?thesis using assms by (auto simp: consistent_physics)
next
  case (Reap t)
  then show ?thesis using reap_consistent [OF assms(1), of t] assms(2) by auto
qed

lemma run_consistent:
  "consistent v \<Longrightarrow> run acts v = Inr v' \<Longrightarrow> consistent v'"
proof (induction acts arbitrary: v)
  case Nil
  then show ?case by simp
next
  case (Cons a acts)
  then obtain v1 where e: "exec a v = Inr v1" and r: "run acts v1 = Inr v'"
    by (auto split: sum.splits)
  have "consistent v1" using Cons.prems(1) e by (rule exec_consistent)
  then show ?case using r by (rule Cons.IH)
qed

lemma run_append:
  "run (xs @ ys) v = (case run xs v of Inl e \<Rightarrow> Inl e | Inr v' \<Rightarrow> run ys v')"
  by (induction xs arbitrary: v) (auto split: sum.splits)

section \<open>Sample inputs\<close>

text \<open>The event of the line \<open>"GET /foo?x=1 HTTP/1.1" 200 1234\<close>, and one draw.\<close>

definition get_event :: log_event where
  "get_event = \<lparr>method' = ''GET'', url = ''/foo'', status = 200, size' = 1234\<rparr>"

definition draw0 :: draw where
  "draw0 = \<lparr>d_choice = 0, d_time = 0, d_y = 20, d_vx = 0, d_vy = 0\<rparr>"

definition same_draw :: "nat \<Rightarrow> draw" where
  "same_draw i = draw0"

text \<open>The ball the sample event and draw make in the initial state.\<close>

definition old_ball :: ball where
  "old_ball = \<lparr>method' = ''GET'', url = ''/foo'', status = 200, size' = 1234, ident = 0,
                color = (255, 0, 0), spawn_time = 0, radius = 60, mass = 3600, kind = Circle,
                pos_x = 770, pos_y = 20, vel_x = -250, vel_y = 0\<rparr>"

text \<open>The ball of the sample event, moved by the solver to a given position.\<close>

definition moved_to :: "real \<Rightarrow> real \<Rightarrow> ball \<Rightarrow> (real \<times> real) \<times> (real \<times> real)" where
  "moved_to x y b = ((x, y), (0, 0))"

definition ball_at :: "real \<Rightarrow> real \<Rightarrow> ball" where
  "ball_at x y = old_ball\<lparr>pos_x := x, pos_y := y, vel_x := 0, vel_y := 0\<rparr>"

definition one_ball_at :: "real \<Rightarrow> real \<Rightarrow> visualizer" where
  "one_ball_at x y = physics (moved_to x y) (spawned old_ball get_event (put get_event init))"

text \<open>An event with a size of 312 digits, which the parser accepts.\<close>

definition huge_event :: log_event where
  "huge_event = \<lparr>method' = ''GET'', url = ''/foo'', status = 200, size' = 10 ^ 312\<rparr>"

lemma in_range_get_event: "in_range 1000 get_event"
  by (simp add: in_range_def float_overflows_def get_event_def)

lemma not_in_range_huge_event: "\<not> in_range 1000 huge_event"
proof -
  have "(2::real) ^ 1024 \<le> 10 ^ 309" by simp
  then have "(2::real) ^ 1024 - 2 ^ 970 \<le> 10 ^ 309" by simp
  then show ?thesis by (simp add: in_range_def float_overflows_def huge_event_def)
qed

lemma new_ball_sample:
  assumes "max_size_seen v = 1000" and "next_ident v = 0"
  shows "new_ball draw0 v get_event = Inr old_ball"
proof -
  have "ball_radius 1000 ''GET'' 200 1234 = Inr 60"
    using in_range_get_event
    by (simp add: ball_radius_positive in_range_def get_event_def is_post_or_delete_def
          MAX_BALL_RADIUS_def)
  then show ?thesis
    using assms
    by (simp add: new_ball_def get_event_def old_ball_def draw0_def
          colors_def ball_kind_def is_post_or_delete_def MAIN_AREA_WIDTH_def BALL_SPAWN_VX_def)
qed

lemma spawn_sample:
  "spawn draw0 (put get_event init) = Inr (spawned old_ball get_event (put get_event init))"
proof -
  have c: "consistent (put get_event init)" using consistent_init by (rule consistent_put)
  have q: "log_queue (put get_event init) = get_event # []" by (simp add: put_def init_def)
  have "new_ball draw0 (put get_event init) get_event = Inr old_ball"
    by (rule new_ball_sample) (simp_all add: put_def init_def)
  then show ?thesis using spawn_consistent [OF c q, of draw0] by simp
qed

lemma run_sample:
  "run [Put get_event, Spawn draw0] init = Inr (spawned old_ball get_event (put get_event init))"
  using spawn_sample by (simp add: may_spawn_def put_def init_def MAX_BALLS_def)

section \<open>What holds in every state a run reaches\<close>

definition sound :: "visualizer \<Rightarrow> bool" where
  "sound v \<longleftrightarrow>
     consistent v \<and> 1000 \<le> max_size_seen v \<and> length (balls v) \<le> MAX_BALLS \<and>
     list_all (\<lambda>b. radius b \<le> of_int MAX_BALL_RADIUS) (balls v)"

lemma discard_fields:
  "discard b v = Inr v' \<Longrightarrow>
     log_queue v' = log_queue v \<and> max_size_seen v' = max_size_seen v \<and>
     url_positions v' = url_positions v \<and> recent_urls v' = recent_urls v \<and>
     next_ident v' = next_ident v"
  by (auto simp: discard_def split: sum.splits)

lemma reap_ball_fields:
  "reap_ball t b v = Inr (br, v') \<Longrightarrow>
     log_queue v' = log_queue v \<and> max_size_seen v' = max_size_seen v \<and>
     url_positions v' = url_positions v \<and> recent_urls v' = recent_urls v \<and>
     next_ident v' = next_ident v"
  using discard_fields [of b v v']
  by (auto simp: reap_ball_def split: if_splits sum.splits)

lemma reap_loop_fields:
  "reap_loop t bs v = Inr (brs, v') \<Longrightarrow>
     log_queue v' = log_queue v \<and> max_size_seen v' = max_size_seen v \<and>
     url_positions v' = url_positions v \<and> recent_urls v' = recent_urls v \<and>
     next_ident v' = next_ident v"
proof (induction bs arbitrary: v brs)
  case Nil
  then show ?case by simp
next
  case (Cons b bs)
  then obtain br w brs' where w: "reap_ball t b v = Inr (br, w)"
    and r: "reap_loop t bs w = Inr (brs', v')"
    by (auto split: sum.splits prod.splits)
  show ?case using reap_ball_fields [OF w] Cons.IH [OF r] by simp
qed

lemma spawn_max:
  "spawn d v = Inr v' \<Longrightarrow> max_size_seen v' = max (max_size_seen v) (size' (hd (log_queue v)))"
  by (auto simp: spawn_def queue_get_def Ball_init_def Let_def split: list.splits sum.splits)

lemma exec_max:
  assumes "exec a v = Inr v'" and "a \<noteq> Reset"
  shows "max_size_seen v \<le> max_size_seen v'"
proof (cases a)
  case (Put e)
  then show ?thesis using assms by (auto simp: put_def)
next
  case Reset
  then show ?thesis using assms by simp
next
  case (Spawn d)
  then show ?thesis using assms spawn_max [of d v v'] by (auto split: if_splits)
next
  case (Physics f)
  then show ?thesis using assms by (auto simp: physics_def)
next
  case (Reap t)
  then show ?thesis
    using assms reap_loop_fields [of t "balls v" v _ v']
    by (auto simp: reap_def split: sum.splits)
qed

lemma run_max:
  "run acts v = Inr v' \<Longrightarrow> Reset \<notin> set acts \<Longrightarrow> max_size_seen v \<le> max_size_seen v'"
proof (induction acts arbitrary: v)
  case Nil
  then show ?case by simp
next
  case (Cons a acts)
  then obtain w where w: "exec a v = Inr w" and r: "run acts w = Inr v'"
    by (auto split: sum.splits)
  have "max_size_seen v \<le> max_size_seen w" using exec_max [OF w] Cons.prems by auto
  moreover have "max_size_seen w \<le> max_size_seen v'" using Cons.IH [OF r] Cons.prems by auto
  ultimately show ?case by simp
qed

lemma sound_init: "sound init"
  using consistent_init by (simp add: sound_def init_def MAX_BALLS_def)

lemma exec_sound:
  assumes "sound v" and e: "exec a v = Inr v'"
  shows "sound v'"
proof -
  have c: "consistent v" using assms by (simp add: sound_def)
  have c': "consistent v'" using c e by (rule exec_consistent)
  have m: "1000 \<le> max_size_seen v'"
  proof (cases "a = Reset")
    case True
    then show ?thesis using e by (auto simp: reset_scale_def)
  next
    case False
    then show ?thesis using exec_max [OF e] assms by (simp add: sound_def)
  qed
  have "length (balls v') \<le> MAX_BALLS \<and>
        list_all (\<lambda>b. radius b \<le> of_int MAX_BALL_RADIUS) (balls v')"
  proof (cases a)
    case (Put x)
    then show ?thesis using e assms by (auto simp: put_def sound_def)
  next
    case Reset
    then show ?thesis using e assms by (auto simp: reset_scale_def sound_def)
  next
    case (Spawn d)
    show ?thesis
    proof (cases "may_spawn v")
      case True
      then obtain b where nb: "new_ball d v (hd (log_queue v)) = Inr b"
        and v': "v' = spawned b (hd (log_queue v)) v"
        using e Spawn exec_Spawn_consistent [OF c True, of d] by (auto split: sum.splits)
      have "radius b \<le> of_int MAX_BALL_RADIUS"
        using new_ball_Inr [OF nb] ball_radius_le by blast
      then show ?thesis
        using True assms by (simp add: v' spawned_def sound_def may_spawn_def)
    next
      case False
      then show ?thesis using e Spawn assms by (simp add: sound_def)
    qed
  next
    case (Physics f)
    then show ?thesis
      using e assms by (auto simp: physics_def sound_def list_all_iff)
  next
    case (Reap t)
    then have "v' = reaped t v" using e reap_consistent [OF c, of t] by simp
    moreover have "length (filter (\<lambda>b. reap_branch t b = Keep) (balls v)) \<le> MAX_BALLS"
    proof -
      have "length (filter (\<lambda>b. reap_branch t b = Keep) (balls v)) \<le> length (balls v)"
        by simp
      also have "\<dots> \<le> MAX_BALLS" using assms by (simp add: sound_def)
      finally show ?thesis .
    qed
    ultimately show ?thesis
      using assms by (auto simp: reaped_def sound_def Let_def list_all_iff)
  qed
  then show ?thesis using c' m by (auto simp: sound_def)
qed

lemma run_sound: "sound v \<Longrightarrow> run acts v = Inr v' \<Longrightarrow> sound v'"
proof (induction acts arbitrary: v)
  case Nil
  then show ?case by simp
next
  case (Cons a acts)
  then obtain w where e: "exec a v = Inr w" and r: "run acts w = Inr v'"
    by (auto split: sum.splits)
  have "sound w" using Cons.prems(1) e by (rule exec_sound)
  then show ?case using r by (rule Cons.IH)
qed

lemma reachable_sound: "run acts init = Inr v \<Longrightarrow> sound v"
  using run_sound [OF sound_init, of acts v] by simp

text \<open>The only exception of the frame loop in such a state is that of line 171.\<close>

lemma exec_error:
  assumes "sound v" and "exec a v = Inl err"
  shows "err = OverflowError \<and> (\<exists>d. a = Spawn d) \<and> may_spawn v \<and>
         \<not> in_range (max_size_seen v) (hd (log_queue v))"
proof -
  have c: "consistent v" and p: "0 < max_size_seen v" using assms(1) by (simp_all add: sound_def)
  show ?thesis
  proof (cases a)
    case (Spawn d)
    then have ms: "may_spawn v" using assms(2) by (auto split: if_splits)
    have n: "new_ball d v (hd (log_queue v)) = Inl err"
      using assms(2) Spawn exec_Spawn_consistent [OF c ms, of d] by (auto split: sum.splits)
    have "\<not> in_range (max_size_seen v) (hd (log_queue v))"
      using new_ball_in_range(1) [OF p, of d "hd (log_queue v)"] n by auto
    moreover from new_ball_in_range(2) [OF p this, of d] n have "err = OverflowError" by simp
    ultimately show ?thesis using Spawn ms by blast
  next
    case (Reap t)
    then show ?thesis using assms(2) reap_consistent [OF c, of t] by simp
  qed (use assms(2) in simp_all)
qed

lemma exec_Spawn_returns:
  assumes "sound v" and "may_spawn v"
  shows "(\<exists>v'. exec (Spawn d) v = Inr v') \<longleftrightarrow> in_range (max_size_seen v) (hd (log_queue v))"
    and "\<not> in_range (max_size_seen v) (hd (log_queue v)) \<Longrightarrow> exec (Spawn d) v = Inl OverflowError"
proof -
  have c: "consistent v" and p: "0 < max_size_seen v" using assms(1) by (simp_all add: sound_def)
  note x = exec_Spawn_consistent [OF c assms(2), of d]
  show "(\<exists>v'. exec (Spawn d) v = Inr v') \<longleftrightarrow> in_range (max_size_seen v) (hd (log_queue v))"
    using x new_ball_in_range(1) [OF p, of d "hd (log_queue v)"] by (auto split: sum.splits)
  show "exec (Spawn d) v = Inl OverflowError" if "\<not> in_range (max_size_seen v) (hd (log_queue v))"
    using x new_ball_in_range(2) [OF p that, of d] by simp
qed

lemma run_puts:
  "run (map Put es) v = Inr (v\<lparr>log_queue := log_queue v @ es\<rparr>)"
  by (induction es arbitrary: v) (simp_all add: put_def)

section \<open>The largest size seen\<close>

text \<open>
  Claim C8. A spawn sets the largest size seen to the maximum of its value and the size of
  the event, so it never falls over any run without a reset. The reset sets it to 1000 and
  changes nothing else: the balls that exist, the space, the queue and the activity list
  stay, and a ball made after it has the radius scaled by 1000.
\<close>

theorem max_size_seen_monotone:
  "(spawn d v = Inr v1 \<longrightarrow>
      max_size_seen v1 = max (max_size_seen v) (size' (hd (log_queue v)))) \<and>
   (Reset \<notin> set acts \<and> run acts v = Inr v2 \<longrightarrow> max_size_seen v \<le> max_size_seen v2) \<and>
   exec Reset v = Inr (reset_scale v) \<and>
   max_size_seen (reset_scale v) = 1000 \<and>
   balls (reset_scale v) = balls v \<and> space (reset_scale v) = space v \<and>
   log_queue (reset_scale v) = log_queue v \<and>
   url_positions (reset_scale v) = url_positions v \<and>
   map_sum id radius (new_ball d' (reset_scale v) e)
     = ball_radius 1000 (method' e) (status e) (size' e)"
proof -
  have "map_sum id radius (new_ball d' (reset_scale v) e)
          = ball_radius 1000 (method' e) (status e) (size' e)"
    by (simp add: new_ball_def reset_scale_def Let_def split: sum.splits)
  then show ?thesis
    using spawn_max [of d v v1] run_max [of acts v v2]
    by (simp add: reset_scale_def)
qed

theorem max_size_seen_monotone_witness:
  "spawn draw0 (put get_event init) = Inr (spawned old_ball get_event (put get_event init)) \<and>
   max_size_seen (spawned old_ball get_event (put get_event init)) = 1234 \<and>
   Reset \<notin> set [Spawn draw0] \<and>
   run [Spawn draw0] (put get_event init)
     = Inr (spawned old_ball get_event (put get_event init)) \<and>
   max_size_seen (put get_event init) = 1000 \<and>
   max_size_seen (reset_scale (put get_event init)) = 1000 \<and>
   map_sum id radius (new_ball draw0 (reset_scale (put get_event init)) get_event) = Inr 60"
proof -
  let ?v = "put get_event init"
  let ?w = "spawned old_ball get_event ?v"
  have s: "spawn draw0 ?v = Inr ?w" by (rule spawn_sample)
  have r: "run [Spawn draw0] ?v = Inr ?w"
    using s by (simp add: may_spawn_def put_def init_def MAX_BALLS_def)
  have n: "Reset \<notin> set [Spawn draw0]" by simp
  have m: "max_size_seen ?v = 1000" "size' (hd (log_queue ?v)) = 1234"
    by (simp_all add: put_def init_def get_event_def)
  have b: "ball_radius 1000 (method' get_event) (status get_event) (size' get_event) = Inr 60"
    using in_range_get_event
    by (simp add: ball_radius_positive in_range_def get_event_def is_post_or_delete_def
          MAX_BALL_RADIUS_def)
  show ?thesis
    using s r n m b max_size_seen_monotone [of draw0 ?v ?w "[Spawn draw0]" ?w draw0 get_event]
    by simp
qed

text \<open>
  Claim C10. In every state a run reaches the largest size seen is at least 1000: it starts
  at 1000, a spawn only takes a maximum with it, and the reset sets it to 1000. So it is
  positive at every spawn, the division of line 171 never raises \<open>ZeroDivisionError\<close>, and
  the radius is the one of the branch of line 170, never the fallback of line 175: whenever
  the quotient is within the floats, it is 15 for a 404, a POST or a DELETE and the scaled
  value otherwise.
\<close>

theorem max_size_seen_floor:
  assumes "run acts init = Inr v"
  shows "1000 \<le> max_size_seen v \<and> 0 < max_size_seen v \<and>
         (of_int (max_size_seen v) :: real) \<noteq> 0 \<and>
         py_truediv sz (max_size_seen v) \<noteq> Inl ZeroDivisionError \<and>
         ball_radius (max_size_seen v) m st sz \<noteq> Inl ZeroDivisionError \<and>
         ball_radius (max_size_seen v) m st sz =
           (case py_truediv sz (max_size_seen v) of
              Inl err \<Rightarrow> Inl err
            | Inr q \<Rightarrow>
                Inr (if st = 404 \<or> is_post_or_delete m then 15
                     else 15 + min q 1.0 * of_int (MAX_BALL_RADIUS - 15)))"
proof -
  have m: "1000 \<le> max_size_seen v"
    using reachable_sound [OF assms] by (simp add: sound_def)
  then have p: "0 < max_size_seen v" by simp
  have "py_truediv sz (max_size_seen v) \<noteq> Inl ZeroDivisionError"
    using p by (simp add: py_truediv_pos)
  moreover have "ball_radius (max_size_seen v) m st sz =
           (case py_truediv sz (max_size_seen v) of
              Inl err \<Rightarrow> Inl err
            | Inr q \<Rightarrow>
                Inr (if st = 404 \<or> is_post_or_delete m then 15
                     else 15 + min q 1.0 * of_int (MAX_BALL_RADIUS - 15)))"
    using p ball_radius_positive [OF p, of m st sz] by (simp add: py_truediv_pos)
  ultimately show ?thesis using m p ball_radius_no_zero_division [of "max_size_seen v" m st sz]
    by simp
qed

theorem max_size_seen_floor_witness:
  "run [Put get_event, Spawn draw0, Reset] init
     = Inr (reset_scale (spawned old_ball get_event (put get_event init))) \<and>
   1000 \<le> max_size_seen (reset_scale (spawned old_ball get_event (put get_event init))) \<and>
   ball_radius (max_size_seen (reset_scale (spawned old_ball get_event (put get_event init))))
     ''GET'' 200 500 = Inr 37.5"
proof -
  let ?v = "put get_event init"
  let ?w = "spawned old_ball get_event ?v"
  have s: "spawn draw0 ?v = Inr ?w" by (rule spawn_sample)
  have r: "run [Put get_event, Spawn draw0, Reset] init = Inr (reset_scale ?w)"
    using s by (simp add: may_spawn_def put_def init_def MAX_BALLS_def)
  have k: "max_size_seen (reset_scale ?w) = 1000" by (simp add: reset_scale_def)
  have q: "py_truediv 500 1000 = Inr (1 / 2)"
    by (simp add: py_truediv_def float_overflows_def)
  show ?thesis
    using r max_size_seen_floor [OF r, where m = "''GET''" and st = 200 and sz = 500]
    unfolding k q by (simp add: is_post_or_delete_def MAX_BALL_RADIUS_def)
qed

section \<open>The cap on live balls\<close>

lemma drain_error:
  assumes "consistent v" and "0 < max_size_seen v" and "drain env v = Inl err"
  shows "err = OverflowError"
  using assms
proof (induction "length (log_queue v)" arbitrary: v)
  case 0
  then show ?case by (simp add: drain.simps [of env v] may_spawn_def)
next
  case (Suc n)
  then obtain e q where eq: "log_queue v = e # q" by (cases "log_queue v") auto
  show ?case
  proof (cases "may_spawn v")
    case False
    then show ?thesis using Suc.prems(3) by (simp add: drain.simps [of env v])
  next
    case True
    note sc = spawn_consistent [OF Suc.prems(1) eq, of "env (next_ident v)"]
    show ?thesis
    proof (cases "new_ball (env (next_ident v)) v e")
      case (Inl x)
      then have "drain env v = Inl x" using True sc by (simp add: drain.simps [of env v])
      then have "x = err" using Suc.prems(3) by simp
      moreover have "\<not> in_range (max_size_seen v) e"
        using new_ball_in_range(1) [OF Suc.prems(2), of "env (next_ident v)" e] Inl by auto
      from new_ball_in_range(2) [OF Suc.prems(2) this, of "env (next_ident v)"] Inl
      have "x = OverflowError" by simp
      ultimately show ?thesis by simp
    next
      case (Inr b)
      let ?v1 = "spawned b e v"
      have d: "drain env ?v1 = Inl err"
        using True sc Inr Suc.prems(3) by (simp add: drain.simps [of env v])
      have c1: "consistent ?v1" using Suc.prems(1) Inr by (rule consistent_spawned)
      have p1: "0 < max_size_seen ?v1" using Suc.prems(2) by (simp add: spawned_def)
      have "n = length (log_queue ?v1)" using Suc.hyps(2) eq by (simp add: spawned_def)
      then show ?thesis using Suc.hyps(1) [of ?v1] c1 p1 d by blast
    qed
  qed
qed

lemma drain_at_cap: "length (balls v) = MAX_BALLS \<Longrightarrow> drain env v = Inr v"
  by (simp add: drain.simps [of env v] may_spawn_def)

lemma sample_queue_in_range:
  "list_all (in_range (max_size_seen (init\<lparr>log_queue := replicate n get_event\<rparr>)))
     (take k (log_queue (init\<lparr>log_queue := replicate n get_event\<rparr>)))"
  using in_range_get_event by (auto simp: init_def list_all_iff dest: in_set_takeD)

text \<open>Frames that only spawn, as many as there are queued events, are one drain.\<close>

lemma spawn_queue_tl: "spawn d v = Inr v' \<Longrightarrow> log_queue v' = tl (log_queue v)"
  by (auto simp: spawn_def queue_get_def Ball_init_def Let_def split: list.splits sum.splits)

lemma run_spawns_idle: "\<not> may_spawn v \<Longrightarrow> run (replicate k (Spawn d)) v = Inr v"
  by (induction k) simp_all

lemma run_spawns_drain:
  "length (log_queue v) \<le> k \<Longrightarrow> run (replicate k (Spawn d)) v = drain (\<lambda>i. d) v"
proof (induction k arbitrary: v)
  case 0
  then show ?case by (simp add: drain.simps [of _ v] may_spawn_def)
next
  case (Suc k)
  show ?case
  proof (cases "may_spawn v")
    case False
    then show ?thesis
      using run_spawns_idle [of v "Suc k" d] by (simp add: drain.simps [of _ v])
  next
    case True
    show ?thesis
    proof (cases "spawn d v")
      case (Inl e)
      then show ?thesis using True by (simp add: drain.simps [of _ v])
    next
      case (Inr v1)
      have "length (log_queue v1) \<le> k"
        using spawn_queue_tl [OF Inr] Suc.prems by simp
      then have "run (replicate k (Spawn d)) v1 = drain (\<lambda>i. d) v1" by (rule Suc.IH)
      then show ?thesis using True Inr by (simp add: drain.simps [of _ v])
    qed
  qed
qed

text \<open>A run that reaches the cap: 101 events are queued, then 101 frames spawn.\<close>

definition full_run :: "action list" where
  "full_run = map Put (replicate 101 get_event) @ replicate 101 (Spawn draw0)"

lemma run_full:
  "\<exists>v. run full_run init = Inr v \<and> length (balls v) = MAX_BALLS \<and> log_queue v = [get_event]"
proof -
  let ?v = "init\<lparr>log_queue := replicate 101 get_event\<rparr>"
  have p: "run (map Put (replicate 101 get_event)) init = Inr ?v"
    using run_puts [of "replicate 101 get_event" init] by (simp add: init_def)
  have sd: "same_draw = (\<lambda>i. draw0)" by (simp add: fun_eq_iff same_draw_def)
  have "length (log_queue ?v) \<le> 101" by simp
  then have r: "run full_run init = drain same_draw ?v"
    unfolding full_run_def run_append p sd by (simp add: run_spawns_drain)
  have c: "consistent ?v" using consistent_init by (simp add: consistent_def)
  have m: "0 < max_size_seen ?v" by (simp add: init_def)
  from drain_returns [OF c m sample_queue_in_range, of same_draw] obtain v' where
    d: "drain same_draw ?v = Inr v'" by blast
  from drain_returned [OF c d] have
    n: "length (balls v') = length (balls ?v) + consumed ?v" and
    q: "log_queue v' = drop (consumed ?v) (log_queue ?v)"
    by simp_all
  have k: "consumed ?v = 100" by (simp add: consumed_def init_def MAX_BALLS_def)
  have "101 - 100 = Suc 0" by simp
  then have "drop 100 (replicate 101 get_event) = [get_event]" by simp
  then have "length (balls v') = MAX_BALLS \<and> log_queue v' = [get_event]"
    using n q k by (simp add: init_def MAX_BALLS_def)
  then show ?thesis using r d by simp
qed

text \<open>
  Claim C2. In every state a run reaches there are at most \<open>MAX_BALLS\<close> live balls. With
  the count at the cap the drain loop returns the state as it is: no event is taken and no
  ball is made. A drain that returns leaves at most \<open>MAX_BALLS\<close> live balls, and from no
  balls and 101 queued events it leaves exactly 100 balls and one event. The drain returns
  when every size it takes, divided by the largest size seen, is within the floats; the
  only exception it can raise is the \<open>OverflowError\<close> of line 171.
\<close>

theorem drain_respects_cap:
  assumes "run acts init = Inr v"
  shows "length (balls v) \<le> MAX_BALLS \<and>
         (length (balls v) = MAX_BALLS \<longrightarrow> drain env v = Inr v) \<and>
         (\<forall>v'. drain env v = Inr v' \<longrightarrow>
               length (balls v') \<le> MAX_BALLS \<and>
               length (balls v') = length (balls v) + consumed v \<and>
               (balls v = [] \<and> length (log_queue v) = 101 \<longrightarrow>
                  length (balls v') = 100 \<and> length (log_queue v') = 1)) \<and>
         (list_all (in_range (max_size_seen v)) (take (consumed v) (log_queue v)) \<longrightarrow>
            (\<exists>v'. drain env v = Inr v')) \<and>
         (\<forall>err. drain env v = Inl err \<longrightarrow> err = OverflowError)"
proof -
  have s: "sound v" using assms by (rule reachable_sound)
  then have c: "consistent v" and l: "length (balls v) \<le> MAX_BALLS"
    and p: "0 < max_size_seen v"
    by (simp_all add: sound_def)
  have 1: "length (balls v) = MAX_BALLS \<longrightarrow> drain env v = Inr v"
    by (simp add: drain_at_cap)
  have 2: "length (balls v') \<le> MAX_BALLS \<and>
           length (balls v') = length (balls v) + consumed v \<and>
           (balls v = [] \<and> length (log_queue v) = 101 \<longrightarrow>
              length (balls v') = 100 \<and> length (log_queue v') = 1)"
    if d: "drain env v = Inr v'" for v'
  proof -
    from drain_returned [OF c d] have
      n: "length (balls v') = length (balls v) + consumed v" and
      q: "log_queue v' = drop (consumed v) (log_queue v)"
      by simp_all
    have "length (balls v') \<le> MAX_BALLS" using n l by (simp add: consumed_def)
    moreover have "balls v = [] \<and> length (log_queue v) = 101 \<longrightarrow>
             length (balls v') = 100 \<and> length (log_queue v') = 1"
      using n q by (simp add: consumed_def MAX_BALLS_def)
    ultimately show ?thesis using n by blast
  qed
  have 3: "list_all (in_range (max_size_seen v)) (take (consumed v) (log_queue v)) \<longrightarrow>
            (\<exists>v'. drain env v = Inr v')"
    using drain_returns [OF c p, of env] by blast
  have 4: "\<forall>err. drain env v = Inl err \<longrightarrow> err = OverflowError"
    using drain_error [OF c p, of env] by blast
  show ?thesis using l 1 2 3 4 by blast
qed

theorem drain_respects_cap_witness:
  "run (map Put (replicate 101 get_event)) init
     = Inr (init\<lparr>log_queue := replicate 101 get_event\<rparr>) \<and>
   (\<exists>v'. drain same_draw (init\<lparr>log_queue := replicate 101 get_event\<rparr>) = Inr v' \<and>
         length (balls v') = 100 \<and> length (log_queue v') = 1) \<and>
   (\<exists>v. run full_run init = Inr v \<and> length (balls v) = MAX_BALLS \<and>
        log_queue v = [get_event] \<and> drain same_draw v = Inr v)"
proof -
  let ?v = "init\<lparr>log_queue := replicate 101 get_event\<rparr>"
  have r: "run (map Put (replicate 101 get_event)) init = Inr ?v"
    using run_puts [of "replicate 101 get_event" init] by (simp add: init_def)
  have b: "balls ?v = [] \<and> length (log_queue ?v) = 101" by (simp add: init_def)
  have i: "list_all (in_range (max_size_seen ?v)) (take (consumed ?v) (log_queue ?v))"
    by (rule sample_queue_in_range)
  have 1: "\<exists>v'. drain same_draw ?v = Inr v' \<and>
         length (balls v') = 100 \<and> length (log_queue v') = 1"
    using b i drain_respects_cap [OF r, of same_draw] by blast
  from run_full obtain w where
    rw: "run full_run init = Inr w" and lw: "length (balls w) = MAX_BALLS" and
    qw: "log_queue w = [get_event]"
    by blast
  have "drain same_draw w = Inr w"
    using lw drain_respects_cap [OF rw, of same_draw] by blast
  with rw lw qw have 2: "\<exists>v. run full_run init = Inr v \<and> length (balls v) = MAX_BALLS \<and>
        log_queue v = [get_event] \<and> drain same_draw v = Inr v"
    by (intro exI [of _ w]) simp
  show ?thesis using r 1 2 by (intro conjI)
qed

text \<open>
  Claim C3 says that events beyond the cap are discarded and not kept in the queue. The
  code keeps them: after the drain of 101 queued events there are \<open>MAX_BALLS\<close> live balls and
  the last event is still in the queue.
\<close>

theorem backlog_counterexample:
  "map_sum id (length \<circ> balls) (drain same_draw (init\<lparr>log_queue := replicate 101 get_event\<rparr>))
     = Inr MAX_BALLS \<and>
   map_sum id log_queue (drain same_draw (init\<lparr>log_queue := replicate 101 get_event\<rparr>))
     = Inr [get_event]"
proof -
  let ?v = "init\<lparr>log_queue := replicate 101 get_event\<rparr>"
  have c: "consistent ?v" using consistent_init by (simp add: consistent_def)
  have p: "0 < max_size_seen ?v" by (simp add: init_def)
  from drain_returns [OF c p sample_queue_in_range, of same_draw] obtain v' where
    d: "drain same_draw ?v = Inr v'" by blast
  from drain_returned [OF c d] have
    n: "length (balls v') = length (balls ?v) + consumed ?v" and
    q: "log_queue v' = drop (consumed ?v) (log_queue ?v)"
    by simp_all
  have k: "consumed ?v = 100" by (simp add: consumed_def init_def MAX_BALLS_def)
  have "101 - 100 = Suc 0" by simp
  then have "drop 100 (replicate 101 get_event) = [get_event]" by simp
  then show ?thesis using d n q k by (simp add: init_def MAX_BALLS_def)
qed

text \<open>
  Claim C3, amended. With the count at the cap the drain loop takes no event and returns
  the state, queue included, unchanged. A drain that returns has taken events from the head
  of the queue while the live count was below the cap; the events it did not take stay in
  the queue in their order, and the balls it made are those of the events it took, oldest
  first. It returns when every size it takes, divided by the largest size seen, is within
  the floats, and otherwise it can only raise the \<open>OverflowError\<close> of line 171.
\<close>

theorem backlog_kept:
  assumes "run acts init = Inr v"
  shows "(length (balls v) = MAX_BALLS \<longrightarrow> drain env v = Inr v) \<and>
         (\<forall>v'. drain env v = Inr v' \<longrightarrow>
            log_queue v' = drop (consumed v) (log_queue v) \<and>
            map event_of (balls v')
              = map event_of (balls v) @ take (consumed v) (log_queue v)) \<and>
         (list_all (in_range (max_size_seen v)) (take (consumed v) (log_queue v)) \<longrightarrow>
            (\<exists>v'. drain env v = Inr v')) \<and>
         (\<forall>err. drain env v = Inl err \<longrightarrow> err = OverflowError)"
proof -
  have c: "consistent v" and p: "0 < max_size_seen v"
    using reachable_sound [OF assms] by (simp_all add: sound_def)
  have 1: "length (balls v) = MAX_BALLS \<longrightarrow> drain env v = Inr v"
    by (simp add: drain_at_cap)
  have 2: "\<forall>v'. drain env v = Inr v' \<longrightarrow>
            log_queue v' = drop (consumed v) (log_queue v) \<and>
            map event_of (balls v')
              = map event_of (balls v) @ take (consumed v) (log_queue v)"
    using drain_returned [OF c, of env] by blast
  have 3: "list_all (in_range (max_size_seen v)) (take (consumed v) (log_queue v)) \<longrightarrow>
            (\<exists>v'. drain env v = Inr v')"
    using drain_returns [OF c p, of env] by blast
  have 4: "\<forall>err. drain env v = Inl err \<longrightarrow> err = OverflowError"
    using drain_error [OF c p, of env] by blast
  show ?thesis using 1 2 3 4 by blast
qed

theorem backlog_kept_witness:
  "run [Put get_event, Put get_event] init = Inr (init\<lparr>log_queue := [get_event, get_event]\<rparr>) \<and>
   (\<exists>v'. drain same_draw (init\<lparr>log_queue := [get_event, get_event]\<rparr>) = Inr v' \<and>
         log_queue v' = [] \<and> map event_of (balls v') = [get_event, get_event]) \<and>
   (\<exists>v. run full_run init = Inr v \<and> length (balls v) = MAX_BALLS \<and>
        map_sum id log_queue (drain same_draw v) = Inr [get_event])"
proof -
  let ?v = "init\<lparr>log_queue := [get_event, get_event]\<rparr>"
  have r: "run [Put get_event, Put get_event] init = Inr ?v"
    by (simp add: put_def init_def)
  have k: "consumed ?v = 2" by (simp add: consumed_def init_def MAX_BALLS_def)
  have i: "list_all (in_range (max_size_seen ?v)) (take (consumed ?v) (log_queue ?v))"
    using sample_queue_in_range [of 2 "consumed ?v"] by (simp add: numeral_2_eq_2)
  from backlog_kept [OF r, of same_draw] i obtain v' where
    d: "drain same_draw ?v = Inr v'" by blast
  from backlog_kept [OF r, of same_draw] d have
    "log_queue v' = drop (consumed ?v) (log_queue ?v)"
    "map event_of (balls v') = map event_of (balls ?v) @ take (consumed ?v) (log_queue ?v)"
    by blast+
  then have "log_queue v' = [] \<and> map event_of (balls v') = [get_event, get_event]"
    unfolding k by (simp add: init_def)
  with d have 1: "\<exists>v'. drain same_draw ?v = Inr v' \<and>
         log_queue v' = [] \<and> map event_of (balls v') = [get_event, get_event]"
    by (intro exI [of _ v'] conjI) simp_all
  from run_full obtain w where
    rw: "run full_run init = Inr w" and lw: "length (balls w) = MAX_BALLS" and
    qw: "log_queue w = [get_event]"
    by blast
  have "drain same_draw w = Inr w"
    using lw backlog_kept [OF rw, of same_draw] by blast
  with rw lw qw have 2: "\<exists>v. run full_run init = Inr v \<and> length (balls v) = MAX_BALLS \<and>
        map_sum id log_queue (drain same_draw v) = Inr [get_event]"
    by (intro exI [of _ w]) simp
  show ?thesis using r 1 2 by (intro conjI)
qed

section \<open>The radius\<close>

text \<open>
  Claim C7. In every state a run reaches, a spawn that returns has made one ball from the
  event at the head of the queue. Its radius is 15 when the method is POST or DELETE or the
  status is 404, and otherwise 15 plus \<open>min (size / max_size_seen) 1.0\<close> times
  \<open>MAX_BALL_RADIUS - 15\<close>. It is at most \<open>MAX_BALL_RADIUS\<close>, as is the radius of every live
  ball. The spawn returns exactly when the size divided by the largest size seen is within
  the floats; when it is not, line 171 raises \<open>OverflowError\<close> and no ball is made, also
  for a POST, a DELETE or a 404.
\<close>

theorem radius_of_spawned:
  assumes "run acts init = Inr v" and "may_spawn v"
  shows "(\<forall>v'. exec (Spawn d) v = Inr v' \<longrightarrow>
            (\<exists>b. balls v' = balls v @ [b] \<and>
               event_of b = hd (log_queue v) \<and>
               radius b =
                 (if method' b = ''POST'' \<or> method' b = ''DELETE'' \<or> status b = 404 then 15
                  else 15 + min (of_int (size' b) / of_int (max_size_seen v)) 1.0
                              * (of_int MAX_BALL_RADIUS - 15)) \<and>
               radius b \<le> of_int MAX_BALL_RADIUS \<and>
               list_all (\<lambda>x. radius x \<le> 60) (balls v'))) \<and>
         ((\<exists>v'. exec (Spawn d) v = Inr v') \<longleftrightarrow>
            in_range (max_size_seen v) (hd (log_queue v))) \<and>
         (\<not> in_range (max_size_seen v) (hd (log_queue v)) \<longrightarrow>
            exec (Spawn d) v = Inl OverflowError)"
proof -
  have s: "sound v" using assms(1) by (rule reachable_sound)
  then have c: "consistent v" and m: "0 < max_size_seen v"
    by (simp_all add: sound_def)
  let ?e = "hd (log_queue v)"
  have 1: "\<exists>b. balls v' = balls v @ [b] \<and> event_of b = ?e \<and>
               radius b =
                 (if method' b = ''POST'' \<or> method' b = ''DELETE'' \<or> status b = 404 then 15
                  else 15 + min (of_int (size' b) / of_int (max_size_seen v)) 1.0
                              * (of_int MAX_BALL_RADIUS - 15)) \<and>
               radius b \<le> of_int MAX_BALL_RADIUS \<and>
               list_all (\<lambda>x. radius x \<le> 60) (balls v')"
    if x: "exec (Spawn d) v = Inr v'" for v'
  proof -
    obtain b where nb: "new_ball d v ?e = Inr b" and v': "v' = spawned b ?e v"
      using x exec_Spawn_consistent [OF c assms(2), of d] by (auto split: sum.splits)
    note f = new_ball_Inr [OF nb]
    have bs: "balls v' = balls v @ [b]" by (simp add: v' spawned_def)
    have ev: "event_of b = ?e" using nb by (rule event_of_new_ball)
    have br: "ball_radius (max_size_seen v) (method' b) (status b) (size' b) = Inr (radius b)"
      using f by simp
    have r: "radius b =
                 (if method' b = ''POST'' \<or> method' b = ''DELETE'' \<or> status b = 404 then 15
                  else 15 + min (of_int (size' b) / of_int (max_size_seen v)) 1.0
                              * (of_int MAX_BALL_RADIUS - 15))"
      using br unfolding ball_radius_positive [OF m]
      by (auto simp: is_post_or_delete_def split: if_splits)
    have le: "radius b \<le> of_int MAX_BALL_RADIUS" using br by (rule ball_radius_le)
    have "sound v'" using s x by (rule exec_sound)
    then have all: "list_all (\<lambda>x. radius x \<le> 60) (balls v')"
      by (simp add: sound_def MAX_BALL_RADIUS_def)
    show ?thesis using bs ev r le all by blast
  qed
  show ?thesis
    using 1 exec_Spawn_returns(1) [OF s assms(2), of d] exec_Spawn_returns(2) [OF s assms(2), of d]
    by blast
qed

theorem radius_of_spawned_witness:
  "run [Put get_event] init = Inr (put get_event init) \<and> may_spawn (put get_event init) \<and>
   (\<exists>v' b. exec (Spawn draw0) (put get_event init) = Inr v' \<and> balls v' = [b] \<and>
          event_of b = get_event \<and> radius b = 60) \<and>
   run [Put huge_event] init = Inr (put huge_event init) \<and> may_spawn (put huge_event init) \<and>
   exec (Spawn draw0) (put huge_event init) = Inl OverflowError"
proof -
  let ?v = "put get_event init"
  have r: "run [Put get_event] init = Inr ?v" by simp
  have m: "may_spawn ?v" by (simp add: may_spawn_def put_def init_def MAX_BALLS_def)
  have i: "in_range (max_size_seen ?v) (hd (log_queue ?v))"
    using in_range_get_event by (simp add: put_def init_def)
  note t = radius_of_spawned [OF r m, of draw0]
  from t i obtain v' where x: "exec (Spawn draw0) ?v = Inr v'" by blast
  from t x obtain b where bs: "balls v' = balls ?v @ [b]" and
    e: "event_of b = hd (log_queue ?v)" and
    rad: "radius b =
             (if method' b = ''POST'' \<or> method' b = ''DELETE'' \<or> status b = 404 then 15
              else 15 + min (of_int (size' b) / of_int (max_size_seen ?v)) 1.0
                          * (of_int MAX_BALL_RADIUS - 15))"
    by blast
  have e': "event_of b = get_event" using e by (simp add: put_def init_def)
  then have f: "method' b = ''GET''" "status b = 200" "size' b = 1234"
    by (auto simp: event_of_def get_event_def)
  have "radius b = 60"
    using rad f by (simp add: put_def init_def MAX_BALL_RADIUS_def)
  with x bs e' have 1: "\<exists>v' b. exec (Spawn draw0) ?v = Inr v' \<and> balls v' = [b] \<and>
          event_of b = get_event \<and> radius b = 60"
    by (intro exI [of _ v'] exI [of _ b]) (simp add: put_def init_def)
  let ?h = "put huge_event init"
  have rh: "run [Put huge_event] init = Inr ?h" by simp
  have mh: "may_spawn ?h" by (simp add: may_spawn_def put_def init_def MAX_BALLS_def)
  have ih: "\<not> in_range (max_size_seen ?h) (hd (log_queue ?h))"
    using not_in_range_huge_event by (simp add: put_def init_def)
  have 2: "exec (Spawn draw0) ?h = Inl OverflowError"
    using radius_of_spawned [OF rh mh, of draw0] ih by blast
  show ?thesis using r m 1 rh mh 2 by (intro conjI)
qed

section \<open>The reaping pass\<close>

lemma reaped_gone:
  assumes "consistent v" and "b \<in> set (balls v)" and "reap_branch t b \<noteq> Keep"
  shows "b \<notin> set (balls (reaped t v)) \<and> ident b \<notin> set (map ident (balls (reaped t v))) \<and>
         ball_objs b \<inter> space (reaped t v) = {}"
proof -
  let ?bs = "filter (\<lambda>x. reap_branch t x = Keep) (balls v)"
  have d: "distinct (map ident (balls v))" using assms(1) by (simp add: consistent_def)
  have other: "\<And>x. x \<in> set ?bs \<Longrightarrow> ident x \<noteq> ident b"
  proof -
    fix x assume "x \<in> set ?bs"
    then have "x \<in> set (balls v)" "x \<noteq> b" using assms(3) by auto
    then show "ident x \<noteq> ident b" using d assms(2) by (meson distinct_map inj_onD)
  qed
  have 1: "b \<notin> set ?bs" using assms(3) by simp
  have 2: "ident b \<notin> set (map ident ?bs)" using other by force
  have "\<And>x. x \<in> set ?bs \<Longrightarrow> ball_objs b \<inter> ball_objs x = {}"
    using other ball_objs_disjoint by metis
  moreover have "LeftWall \<notin> ball_objs b" "RightWall \<notin> ball_objs b"
    by (simp_all add: ball_objs_def added_objs_not_wall)
  ultimately have 3: "ball_objs b \<inter> ({LeftWall, RightWall} \<union> \<Union> (set (map ball_objs ?bs))) = {}"
    by auto
  show ?thesis using 1 2 3 by (simp add: reaped_def Let_def)
qed

lemma reaped_kept:
  assumes "b \<in> set (balls v)" and "reap_branch t b = Keep"
  shows "b \<in> set (balls (reaped t v)) \<and> ball_objs b \<subseteq> space (reaped t v)"
  using assms by (auto simp: reaped_def Let_def)

lemma registered:
  assumes "consistent v" and "b \<in> set (balls v)"
  shows "set (added_objs (method' b) (ident b)) \<subseteq> space v"
  using assms by (auto simp: consistent_def ball_objs_def)

lemma in_zip_map: "(x, y) \<in> set (zip xs (map f xs)) \<longleftrightarrow> x \<in> set xs \<and> y = f x"
  by (induction xs) auto

lemma funnel_bounds: "FUNNEL_OPENING_LEFT = 350" "FUNNEL_OPENING_RIGHT = 500"
  by (simp_all add: FUNNEL_OPENING_LEFT_def FUNNEL_OPENING_RIGHT_def FUNNEL_CENTER_X_def
        MAIN_AREA_WIDTH_def FUNNEL_END_WIDTH_def)

lemma run_one_ball_at:
  "run [Put get_event, Spawn draw0, Physics (moved_to x y)] init = Inr (one_ball_at x y)"
  using spawn_sample
  by (simp add: may_spawn_def put_def init_def MAX_BALLS_def one_ball_at_def)

lemma balls_one_ball_at: "balls (one_ball_at x y) = [ball_at x y]"
  by (simp add: one_ball_at_def physics_def spawned_def ball_at_def old_ball_def
        moved_to_def put_def init_def)

lemma added_objs_old_ball:
  "set (added_objs (method' (ball_at x y)) (ident (ball_at x y))) = {BodyOf 0, MainShape 0}"
  by (auto simp: ball_at_def old_ball_def added_objs_def)

text \<open>
  Claim C4. In every state a run reaches, the body and the shapes of a live ball are in the
  space. When the age of the ball at the reaping pass is over \<open>DESPAWN_TIME\<close>, the pass
  returns and the ball is gone after it, whatever its position: it is no longer in the list
  of balls, and none of the objects that were registered for it, the body among them, is in
  the space any more. The pass adds nothing to the space, and the balls after it are
  exactly the balls that are neither older than \<open>DESPAWN_TIME\<close> nor below the screen within
  the opening.
\<close>

theorem despawn_after_timeout:
  assumes "run acts init = Inr v" and "b \<in> set (balls v)"
    and "t - spawn_time b > of_int DESPAWN_TIME"
  shows "set (added_objs (method' b) (ident b)) \<subseteq> space v \<and>
         BodyOf (ident b) \<in> set (added_objs (method' b) (ident b)) \<and>
         length (added_objs (method' b) (ident b)) \<ge> 2 \<and>
         (\<exists>v'. exec (Reap t) v = Inr v' \<and>
           b \<notin> set (balls v') \<and> ident b \<notin> set (map ident (balls v')) \<and>
           set (added_objs (method' b) (ident b)) \<inter> space v' = {} \<and>
           BodyOf (ident b) \<notin> space v' \<and>
           space v' \<subseteq> space v \<and>
           (\<forall>x. x \<in> set (balls v') \<longleftrightarrow>
                x \<in> set (balls v) \<and> \<not> t - spawn_time x > of_int DESPAWN_TIME \<and>
                \<not> (pos_y x > of_int SCREEN_HEIGHT \<and>
                   FUNNEL_OPENING_LEFT \<le> pos_x x \<and> pos_x x \<le> FUNNEL_OPENING_RIGHT)))"
proof -
  have c: "consistent v" using reachable_sound [OF assms(1)] by (simp add: sound_def)
  have k: "reap_branch t b \<noteq> Keep" using assms(3) by (simp add: reap_branch_def too_old_def)
  have body: "BodyOf (ident b) \<in> set (added_objs (method' b) (ident b))"
    "length (added_objs (method' b) (ident b)) \<ge> 2"
    by (simp_all add: added_objs_def)
  have x: "exec (Reap t) v = Inr (reaped t v)" using reap_consistent [OF c, of t] by simp
  have g: "b \<notin> set (balls (reaped t v))" "ident b \<notin> set (map ident (balls (reaped t v)))"
    "set (added_objs (method' b) (ident b)) \<inter> space (reaped t v) = {}"
    using reaped_gone [OF c assms(2) k] by (simp_all add: ball_objs_def)
  have nb: "BodyOf (ident b) \<notin> space (reaped t v)" using g(3) body(1) by blast
  have sub: "space (reaped t v) \<subseteq> space v"
    using c by (auto simp: reaped_def Let_def consistent_def)
  have kept: "\<forall>x. x \<in> set (balls (reaped t v)) \<longleftrightarrow>
                x \<in> set (balls v) \<and> \<not> t - spawn_time x > of_int DESPAWN_TIME \<and>
                \<not> (pos_y x > of_int SCREEN_HEIGHT \<and>
                   FUNNEL_OPENING_LEFT \<le> pos_x x \<and> pos_x x \<le> FUNNEL_OPENING_RIGHT)"
    by (auto simp: reaped_def Let_def reap_branch_def funnel_exit_def too_old_def
          split: if_splits)
  show ?thesis
    using registered [OF c assms(2)] body x g nb sub kept
    by (intro conjI exI [of _ "reaped t v"]) simp_all
qed

theorem despawn_after_timeout_witness:
  "run [Put get_event, Spawn draw0, Physics (moved_to 300 100)] init
     = Inr (one_ball_at 300 100) \<and>
   ball_at 300 100 \<in> set (balls (one_ball_at 300 100)) \<and>
   11 - spawn_time (ball_at 300 100) > of_int DESPAWN_TIME \<and>
   {BodyOf 0, MainShape 0} \<subseteq> space (one_ball_at 300 100) \<and>
   (\<exists>v'. exec (Reap 11) (one_ball_at 300 100) = Inr v' \<and>
         ball_at 300 100 \<notin> set (balls v') \<and>
         {BodyOf 0, MainShape 0} \<inter> space v' = {})"
proof -
  have r: "run [Put get_event, Spawn draw0, Physics (moved_to 300 100)] init
            = Inr (one_ball_at 300 100)" by (rule run_one_ball_at)
  have b: "ball_at 300 100 \<in> set (balls (one_ball_at 300 100))"
    by (simp add: balls_one_ball_at)
  have t: "11 - spawn_time (ball_at 300 100) > of_int DESPAWN_TIME"
    by (simp add: ball_at_def old_ball_def DESPAWN_TIME_def)
  show ?thesis
    using r b t despawn_after_timeout [OF r b t]
    unfolding added_objs_old_ball by blast
qed

text \<open>
  Claim C5. In every state a run reaches the reaping pass returns, with one branch for each
  live ball. A live ball below the bottom of the screen and strictly between the edges of
  the opening takes the exit branch and is gone after the pass: it is not in the list of
  balls, and none of the objects that were registered for it is in the space. A ball left
  or right of the opening, or not below the bottom of the screen, never takes the exit
  branch: it stays exactly when it is not older than \<open>DESPAWN_TIME\<close>, and then its objects
  stay in the space.
\<close>

theorem funnel_exit_rule:
  assumes "run acts init = Inr v" and "b \<in> set (balls v)"
  shows "\<exists>brs v'. reap t v = Inr (brs, v') \<and> exec (Reap t) v = Inr v' \<and>
           length brs = length (balls v) \<and>
           set (added_objs (method' b) (ident b)) \<subseteq> space v \<and>
           (pos_y b > of_int SCREEN_HEIGHT \<and>
              FUNNEL_OPENING_LEFT < pos_x b \<and> pos_x b < FUNNEL_OPENING_RIGHT \<longrightarrow>
            (b, Exit) \<in> set (zip (balls v) brs) \<and> b \<notin> set (balls v') \<and>
            set (added_objs (method' b) (ident b)) \<inter> space v' = {}) \<and>
           (pos_x b < FUNNEL_OPENING_LEFT \<or> FUNNEL_OPENING_RIGHT < pos_x b \<or>
              pos_y b \<le> of_int SCREEN_HEIGHT \<longrightarrow>
            (b, Exit) \<notin> set (zip (balls v) brs) \<and>
            (b \<in> set (balls v') \<longleftrightarrow> \<not> t - spawn_time b > of_int DESPAWN_TIME) \<and>
            (b \<in> set (balls v') \<longrightarrow> set (added_objs (method' b) (ident b)) \<subseteq> space v'))"
proof -
  let ?brs = "map (reap_branch t) (balls v)"
  have c: "consistent v" using reachable_sound [OF assms(1)] by (simp add: sound_def)
  have rp: "reap t v = Inr (?brs, reaped t v)" using reap_consistent [OF c, of t] by simp
  then have x: "exec (Reap t) v = Inr (reaped t v)" by simp
  have z: "\<And>br. (b, br) \<in> set (zip (balls v) ?brs) \<longleftrightarrow> br = reap_branch t b"
    using assms(2) by (simp add: in_zip_map)
  have 1: "(b, Exit) \<in> set (zip (balls v) ?brs) \<and> b \<notin> set (balls (reaped t v)) \<and>
            set (added_objs (method' b) (ident b)) \<inter> space (reaped t v) = {}"
    if "pos_y b > of_int SCREEN_HEIGHT \<and>
            FUNNEL_OPENING_LEFT < pos_x b \<and> pos_x b < FUNNEL_OPENING_RIGHT"
  proof -
    have e: "reap_branch t b = Exit" using that by (simp add: reap_branch_def funnel_exit_def)
    then have "reap_branch t b \<noteq> Keep" by simp
    from reaped_gone [OF c assms(2) this] e z
    show ?thesis by (simp add: ball_objs_def)
  qed
  have 2: "(b, Exit) \<notin> set (zip (balls v) ?brs) \<and>
            (b \<in> set (balls (reaped t v)) \<longleftrightarrow> \<not> t - spawn_time b > of_int DESPAWN_TIME) \<and>
            (b \<in> set (balls (reaped t v)) \<longrightarrow>
               set (added_objs (method' b) (ident b)) \<subseteq> space (reaped t v))"
    if "pos_x b < FUNNEL_OPENING_LEFT \<or> FUNNEL_OPENING_RIGHT < pos_x b \<or>
          pos_y b \<le> of_int SCREEN_HEIGHT"
  proof -
    have n: "\<not> funnel_exit b" using that by (auto simp: funnel_exit_def)
    then have e: "reap_branch t b \<noteq> Exit" by (simp add: reap_branch_def)
    have k: "reap_branch t b = Keep \<longleftrightarrow> \<not> t - spawn_time b > of_int DESPAWN_TIME"
      using n by (simp add: reap_branch_def too_old_def)
    have m: "b \<in> set (balls (reaped t v)) \<longleftrightarrow> reap_branch t b = Keep"
      using assms(2) by (simp add: reaped_def Let_def)
    have "b \<in> set (balls (reaped t v)) \<longrightarrow>
               set (added_objs (method' b) (ident b)) \<subseteq> space (reaped t v)"
      using m reaped_kept [OF assms(2), of t] by (simp add: ball_objs_def)
    then show ?thesis using e k m z by simp
  qed
  have l: "length ?brs = length (balls v)" by simp
  show ?thesis
    using rp x l registered [OF c assms(2)] 1 2
    by (intro exI [of _ ?brs] exI [of _ "reaped t v"]) blast
qed

theorem funnel_exit_rule_witness:
  "run [Put get_event, Spawn draw0, Physics (moved_to 400 801)] init = Inr (one_ball_at 400 801) \<and>
   ball_at 400 801 \<in> set (balls (one_ball_at 400 801)) \<and>
   pos_y (ball_at 400 801) > of_int SCREEN_HEIGHT \<and>
   FUNNEL_OPENING_LEFT < pos_x (ball_at 400 801) \<and>
   pos_x (ball_at 400 801) < FUNNEL_OPENING_RIGHT \<and>
   (\<exists>v'. reap 1 (one_ball_at 400 801) = Inr ([Exit], v') \<and> balls v' = [] \<and>
         {BodyOf 0, MainShape 0} \<inter> space v' = {}) \<and>
   run [Put get_event, Spawn draw0, Physics (moved_to 300 801)] init = Inr (one_ball_at 300 801) \<and>
   ball_at 300 801 \<in> set (balls (one_ball_at 300 801)) \<and>
   pos_x (ball_at 300 801) < FUNNEL_OPENING_LEFT \<and>
   (\<exists>v'. reap 1 (one_ball_at 300 801) = Inr ([Keep], v') \<and>
         ball_at 300 801 \<in> set (balls v') \<and> {BodyOf 0, MainShape 0} \<subseteq> space v')"
proof -
  have r1: "run [Put get_event, Spawn draw0, Physics (moved_to 400 801)] init
            = Inr (one_ball_at 400 801)" by (rule run_one_ball_at)
  have b1: "ball_at 400 801 \<in> set (balls (one_ball_at 400 801))"
    by (simp add: balls_one_ball_at)
  have p1: "pos_y (ball_at 400 801) > of_int SCREEN_HEIGHT \<and>
            FUNNEL_OPENING_LEFT < pos_x (ball_at 400 801) \<and>
            pos_x (ball_at 400 801) < FUNNEL_OPENING_RIGHT"
    by (simp add: ball_at_def funnel_bounds SCREEN_HEIGHT_def)
  have r2: "run [Put get_event, Spawn draw0, Physics (moved_to 300 801)] init
            = Inr (one_ball_at 300 801)" by (rule run_one_ball_at)
  have b2: "ball_at 300 801 \<in> set (balls (one_ball_at 300 801))"
    by (simp add: balls_one_ball_at)
  have p2: "pos_x (ball_at 300 801) < FUNNEL_OPENING_LEFT"
    by (simp add: ball_at_def funnel_bounds)
  have young: "\<not> 1 - spawn_time (ball_at 300 801) > of_int DESPAWN_TIME"
    by (simp add: ball_at_def old_ball_def DESPAWN_TIME_def)
  from funnel_exit_rule [OF r1 b1, of 1] p1 obtain brs1 v1 where
    x1: "reap 1 (one_ball_at 400 801) = Inr (brs1, v1)" and
    l1: "length brs1 = length (balls (one_ball_at 400 801))" and
    z1: "(ball_at 400 801, Exit) \<in> set (zip (balls (one_ball_at 400 801)) brs1)" and
    g1: "ball_at 400 801 \<notin> set (balls v1)" and
    s1: "set (added_objs (method' (ball_at 400 801)) (ident (ball_at 400 801))) \<inter> space v1 = {}"
    by blast
  have t1: "brs1 = [Exit]"
    using l1 z1 by (cases brs1) (auto simp: balls_one_ball_at)
  have "balls v1 = filter (\<lambda>b. reap_branch 1 b = Keep) [ball_at 400 801]"
    using x1 reap_consistent [of "one_ball_at 400 801" 1] reachable_sound [OF r1]
    by (auto simp: sound_def reaped_def Let_def balls_one_ball_at)
  then have e1: "balls v1 = []" using g1 by (auto split: if_splits)
  have 1: "\<exists>v'. reap 1 (one_ball_at 400 801) = Inr ([Exit], v') \<and> balls v' = [] \<and>
         {BodyOf 0, MainShape 0} \<inter> space v' = {}"
    using x1 t1 e1 s1 unfolding added_objs_old_ball by (intro exI [of _ v1]) simp
  from funnel_exit_rule [OF r2 b2, of 1] p2 young obtain brs2 v2 where
    x2: "reap 1 (one_ball_at 300 801) = Inr (brs2, v2)" and
    x2': "exec (Reap 1) (one_ball_at 300 801) = Inr v2" and
    l2: "length brs2 = length (balls (one_ball_at 300 801))" and
    g2: "ball_at 300 801 \<in> set (balls v2)" and
    s2: "set (added_objs (method' (ball_at 300 801)) (ident (ball_at 300 801))) \<subseteq> space v2"
    by blast
  have "brs2 = map (reap_branch 1) (balls (one_ball_at 300 801))"
    using x2 reap_consistent [of "one_ball_at 300 801" 1] reachable_sound [OF r2]
    by (auto simp: sound_def)
  moreover have "reap_branch 1 (ball_at 300 801) = Keep"
    using young p2 by (simp add: reap_branch_def funnel_exit_def too_old_def)
  ultimately have t2: "brs2 = [Keep]" by (simp add: balls_one_ball_at)
  have 2: "\<exists>v'. reap 1 (one_ball_at 300 801) = Inr ([Keep], v') \<and>
         ball_at 300 801 \<in> set (balls v') \<and> {BodyOf 0, MainShape 0} \<subseteq> space v'"
    using x2 t2 g2 s2 unfolding added_objs_old_ball by (intro exI [of _ v2]) simp
  show ?thesis using r1 b1 p1 1 r2 b2 p2 2 by (intro conjI) simp_all
qed

text \<open>
  Claim C9. In every state a run reaches, a live ball that is in the opening below the
  screen and also older than \<open>DESPAWN_TIME\<close> takes the exit branch, not the despawn branch:
  that is what \<open>reap_ball\<close> returns for it and what the pass records for it, and it is
  gone after the pass. Every ball for which the pass records the despawn branch has failed
  the exit test and is older than \<open>DESPAWN_TIME\<close>.
\<close>

theorem exit_before_despawn:
  assumes "run acts init = Inr v" and "b \<in> set (balls v)"
    and "pos_y b > of_int SCREEN_HEIGHT"
    and "FUNNEL_OPENING_LEFT \<le> pos_x b" and "pos_x b \<le> FUNNEL_OPENING_RIGHT"
    and "t - spawn_time b > of_int DESPAWN_TIME"
  shows "map_sum id fst (reap_ball t b v) = Inr Exit \<and>
         (\<exists>brs v'. reap t v = Inr (brs, v') \<and> exec (Reap t) v = Inr v' \<and>
            length brs = length (balls v) \<and>
            (b, Exit) \<in> set (zip (balls v) brs) \<and>
            (b, Despawn) \<notin> set (zip (balls v) brs) \<and>
            b \<notin> set (balls v') \<and>
            (\<forall>x. (x, Despawn) \<in> set (zip (balls v) brs) \<longrightarrow>
                 \<not> (pos_y x > of_int SCREEN_HEIGHT \<and>
                    FUNNEL_OPENING_LEFT \<le> pos_x x \<and> pos_x x \<le> FUNNEL_OPENING_RIGHT) \<and>
                 t - spawn_time x > of_int DESPAWN_TIME \<and> x \<notin> set (balls v')))"
proof -
  let ?brs = "map (reap_branch t) (balls v)"
  have c: "consistent v" using reachable_sound [OF assms(1)] by (simp add: sound_def)
  have fe: "funnel_exit b" using assms(3,4,5) by (simp add: funnel_exit_def)
  then have e: "reap_branch t b = Exit" by (simp add: reap_branch_def)
  have 0: "map_sum id fst (reap_ball t b v) = Inr Exit"
    using reap_ball_consistent [OF c assms(2), of t] e by simp
  have rp: "reap t v = Inr (?brs, reaped t v)" using reap_consistent [OF c, of t] by simp
  then have x: "exec (Reap t) v = Inr (reaped t v)" by simp
  have l: "length ?brs = length (balls v)" by simp
  have z: "(b, Exit) \<in> set (zip (balls v) ?brs)" "(b, Despawn) \<notin> set (zip (balls v) ?brs)"
    using assms(2) e by (simp_all add: in_zip_map)
  have "reap_branch t b \<noteq> Keep" using e by simp
  from reaped_gone [OF c assms(2) this] have g: "b \<notin> set (balls (reaped t v))" by simp
  have d: "\<forall>x. (x, Despawn) \<in> set (zip (balls v) ?brs) \<longrightarrow>
                 \<not> (pos_y x > of_int SCREEN_HEIGHT \<and>
                    FUNNEL_OPENING_LEFT \<le> pos_x x \<and> pos_x x \<le> FUNNEL_OPENING_RIGHT) \<and>
                 t - spawn_time x > of_int DESPAWN_TIME \<and> x \<notin> set (balls (reaped t v))"
  proof (intro allI impI)
    fix x assume "(x, Despawn) \<in> set (zip (balls v) ?brs)"
    then have xin: "x \<in> set (balls v)" and xd: "reap_branch t x = Despawn"
      by (simp_all add: in_zip_map)
    have "\<not> funnel_exit x" "too_old t x"
      using xd by (auto simp: reap_branch_def split: if_splits)
    moreover have "reap_branch t x \<noteq> Keep" using xd by simp
    from reaped_gone [OF c xin this] have "x \<notin> set (balls (reaped t v))" by simp
    ultimately show "\<not> (pos_y x > of_int SCREEN_HEIGHT \<and>
                    FUNNEL_OPENING_LEFT \<le> pos_x x \<and> pos_x x \<le> FUNNEL_OPENING_RIGHT) \<and>
                 t - spawn_time x > of_int DESPAWN_TIME \<and> x \<notin> set (balls (reaped t v))"
      by (simp add: funnel_exit_def too_old_def)
  qed
  have "\<exists>brs v'. reap t v = Inr (brs, v') \<and> exec (Reap t) v = Inr v' \<and>
            length brs = length (balls v) \<and>
            (b, Exit) \<in> set (zip (balls v) brs) \<and>
            (b, Despawn) \<notin> set (zip (balls v) brs) \<and>
            b \<notin> set (balls v') \<and>
            (\<forall>x. (x, Despawn) \<in> set (zip (balls v) brs) \<longrightarrow>
                 \<not> (pos_y x > of_int SCREEN_HEIGHT \<and>
                    FUNNEL_OPENING_LEFT \<le> pos_x x \<and> pos_x x \<le> FUNNEL_OPENING_RIGHT) \<and>
                 t - spawn_time x > of_int DESPAWN_TIME \<and> x \<notin> set (balls v'))"
    using rp x l z g d by (intro exI [of _ ?brs] exI [of _ "reaped t v"]) blast
  with 0 show ?thesis by (rule conjI)
qed

theorem exit_before_despawn_witness:
  "run [Put get_event, Spawn draw0, Physics (moved_to 400 801)] init = Inr (one_ball_at 400 801) \<and>
   ball_at 400 801 \<in> set (balls (one_ball_at 400 801)) \<and>
   pos_y (ball_at 400 801) > of_int SCREEN_HEIGHT \<and>
   FUNNEL_OPENING_LEFT \<le> pos_x (ball_at 400 801) \<and>
   pos_x (ball_at 400 801) \<le> FUNNEL_OPENING_RIGHT \<and>
   11 - spawn_time (ball_at 400 801) > of_int DESPAWN_TIME \<and>
   map_sum id fst (reap_ball 11 (ball_at 400 801) (one_ball_at 400 801)) = Inr Exit \<and>
   (\<exists>v'. reap 11 (one_ball_at 400 801) = Inr ([Exit], v') \<and>
         ball_at 400 801 \<notin> set (balls v'))"
proof -
  have r1: "run [Put get_event, Spawn draw0, Physics (moved_to 400 801)] init
            = Inr (one_ball_at 400 801)" by (rule run_one_ball_at)
  have b1: "ball_at 400 801 \<in> set (balls (one_ball_at 400 801))"
    by (simp add: balls_one_ball_at)
  have f1: "pos_y (ball_at 400 801) > of_int SCREEN_HEIGHT"
    "FUNNEL_OPENING_LEFT \<le> pos_x (ball_at 400 801)"
    "pos_x (ball_at 400 801) \<le> FUNNEL_OPENING_RIGHT"
    by (simp_all add: ball_at_def funnel_bounds SCREEN_HEIGHT_def)
  have o1: "11 - spawn_time (ball_at 400 801) > of_int DESPAWN_TIME"
    by (simp add: ball_at_def old_ball_def DESPAWN_TIME_def)
  note t = exit_before_despawn [OF r1 b1 f1 o1]
  from t obtain brs v' where
    x: "reap 11 (one_ball_at 400 801) = Inr (brs, v')" and
    l: "length brs = length (balls (one_ball_at 400 801))" and
    z: "(ball_at 400 801, Exit) \<in> set (zip (balls (one_ball_at 400 801)) brs)" and
    g: "ball_at 400 801 \<notin> set (balls v')"
    by blast
  have "brs = [Exit]" using l z by (cases brs) (auto simp: balls_one_ball_at)
  with x g have "\<exists>v'. reap 11 (one_ball_at 400 801) = Inr ([Exit], v') \<and>
         ball_at 400 801 \<notin> set (balls v')"
    by (intro exI [of _ v']) simp
  then show ?thesis using r1 b1 f1 o1 t by (intro conjI) simp_all
qed

section \<open>The activity list\<close>

definition moved_down :: "string \<times> int \<times> int \<Rightarrow> string \<times> int \<times> int" where
  "moved_down = (\<lambda>(u, sz, y_pos). (u, sz, y_pos + MIN_LINE_SPACING))"

definition on_screen :: "string \<times> int \<times> int \<Rightarrow> bool" where
  "on_screen = (\<lambda>(u, sz, y_pos). y_pos < SCROLL_AREA_HEIGHT)"

lemma shift_urls_from:
  "i \<le> length ups \<Longrightarrow> shift_urls i ups = take i ups @ map moved_down (drop i ups)"
proof (induction i ups rule: shift_urls.induct)
  case (1 i ups)
  show ?case
  proof (cases "i < length ups")
    case False
    then have "shift_urls i ups = ups" by (subst shift_urls.simps) simp
    then show ?thesis using False "1.prems" by simp
  next
    case True
    obtain u sz y where e: "ups ! i = (u, sz, y)" by (cases "ups ! i") auto
    let ?ups' = "ups[i := (u, sz, y + MIN_LINE_SPACING)]"
    have "shift_urls (Suc i) ?ups' = take (Suc i) ?ups' @ map moved_down (drop (Suc i) ?ups')"
      using "1.IH" [OF True e [symmetric] refl] True by simp
    moreover have "take (Suc i) ?ups' = take i ups @ [moved_down (ups ! i)]"
      using True e by (simp add: take_Suc_conv_app_nth moved_down_def)
    moreover have "drop (Suc i) ?ups' = drop (Suc i) ups" by simp
    moreover have "drop i ups = ups ! i # drop (Suc i) ups"
      using True by (simp add: Cons_nth_drop_Suc)
    ultimately show ?thesis
      using True e by (simp add: shift_urls.simps [of i ups])
  qed
qed

lemma pop_urls_upto:
  "i \<le> length ups \<Longrightarrow> pop_urls i ups = filter on_screen (take i ups) @ drop i ups"
proof (induction i arbitrary: ups)
  case 0
  then show ?case by simp
next
  case (Suc i)
  obtain u sz y where e: "ups ! i = (u, sz, y)" by (cases "ups ! i") auto
  have lt: "i < length ups" using Suc.prems by simp
  have t: "take (Suc i) ups = take i ups @ [ups ! i]"
    using lt by (simp add: take_Suc_conv_app_nth)
  show ?case
  proof (cases "y \<ge> SCROLL_AREA_HEIGHT")
    case True
    let ?ups' = "take i ups @ drop (Suc i) ups"
    have "i \<le> length ?ups'" using lt by simp
    then have ih: "pop_urls i ?ups' = filter on_screen (take i ?ups') @ drop i ?ups'"
      by (rule Suc.IH)
    have tk: "take i ?ups' = take i ups" and dr: "drop i ?ups' = drop (Suc i) ups"
      using lt by simp_all
    have "pop_urls (Suc i) ups = pop_urls i ?ups'" using True e by simp
    also have "\<dots> = filter on_screen (take i ups) @ drop (Suc i) ups"
      by (simp only: ih tk dr)
    also have "\<dots> = filter on_screen (take (Suc i) ups) @ drop (Suc i) ups"
      using True e by (simp add: t on_screen_def)
    finally show ?thesis .
  next
    case False
    have ih: "pop_urls i ups = filter on_screen (take i ups) @ drop i ups"
      using lt by (intro Suc.IH) simp
    have dr: "drop i ups = ups ! i # drop (Suc i) ups"
      using lt by (simp add: Cons_nth_drop_Suc)
    have "pop_urls (Suc i) ups = pop_urls i ups" using False e by simp
    also have "\<dots> = filter on_screen (take i ups) @ ups ! i # drop (Suc i) ups"
      by (simp only: ih dr)
    also have "\<dots> = filter on_screen (take (Suc i) ups) @ drop (Suc i) ups"
      using False e by (simp add: t on_screen_def)
    finally show ?thesis .
  qed
qed

lemma track_url_closed:
  "track_url e ups = filter on_screen (map moved_down ups) @ [(url e, size' e, 20)]"
  by (simp add: track_url_def Let_def shift_urls_from pop_urls_upto)

definition y_pos_of :: "string \<times> int \<times> int \<Rightarrow> int" where
  "y_pos_of = (\<lambda>(u, sz, y_pos). y_pos)"

definition stacked :: "(string \<times> int \<times> int) list \<Rightarrow> bool" where
  "stacked ups \<longleftrightarrow>
     map y_pos_of ups = map (\<lambda>i. MIN_LINE_SPACING * (int (length ups) - int i)) [0..<length ups] \<and>
     MIN_LINE_SPACING * int (length ups) < SCROLL_AREA_HEIGHT"

lemma stacked_nth:
  "stacked ups \<Longrightarrow> i < length ups \<Longrightarrow>
     y_pos_of (ups ! i) = MIN_LINE_SPACING * (int (length ups) - int i)"
proof -
  assume s: "stacked ups" and i: "i < length ups"
  have "y_pos_of (ups ! i) = map y_pos_of ups ! i" using i by simp
  also have "\<dots> = map (\<lambda>i. MIN_LINE_SPACING * (int (length ups) - int i)) [0..<length ups] ! i"
    using s by (simp add: stacked_def)
  also have "\<dots> = MIN_LINE_SPACING * (int (length ups) - int i)" using i by simp
  finally show ?thesis .
qed

lemma stackedI:
  assumes "\<And>i. i < length ups \<Longrightarrow>
             y_pos_of (ups ! i) = MIN_LINE_SPACING * (int (length ups) - int i)"
    and "MIN_LINE_SPACING * int (length ups) < SCROLL_AREA_HEIGHT"
  shows "stacked ups"
  unfolding stacked_def using assms by (auto intro: nth_equalityI)

lemma y_pos_moved_down [simp]: "y_pos_of (moved_down x) = y_pos_of x + MIN_LINE_SPACING"
  by (cases x) (simp add: y_pos_of_def moved_down_def)

lemma on_screen_y_pos: "on_screen x \<longleftrightarrow> y_pos_of x < SCROLL_AREA_HEIGHT"
  by (cases x) (simp add: y_pos_of_def on_screen_def)

lemma stacked_track_url:
  assumes "stacked ups"
  shows "stacked (track_url e ups)"
proof -
  let ?n = "length ups"
  let ?new = "(url e, size' e, 20::int)"
  have bound: "MIN_LINE_SPACING * int ?n < SCROLL_AREA_HEIGHT"
    using assms by (simp add: stacked_def)
  have newy: "y_pos_of ?new = MIN_LINE_SPACING" by (simp add: y_pos_of_def MIN_LINE_SPACING_def)
  show ?thesis
  proof (cases "MIN_LINE_SPACING * int (Suc ?n) < SCROLL_AREA_HEIGHT")
    case True
    have "\<And>x. x \<in> set ups \<Longrightarrow> on_screen (moved_down x)"
    proof -
      fix x assume "x \<in> set ups"
      then obtain i where i: "i < ?n" "x = ups ! i" by (auto simp: in_set_conv_nth)
      then have "y_pos_of x = MIN_LINE_SPACING * (int ?n - int i)"
        using stacked_nth [OF assms] by simp
      then have "y_pos_of (moved_down x) \<le> MIN_LINE_SPACING * int (Suc ?n)"
        by (simp add: MIN_LINE_SPACING_def)
      then show "on_screen (moved_down x)" using True by (simp add: on_screen_y_pos)
    qed
    then have "filter on_screen (map moved_down ups) = map moved_down ups"
      by (simp add: filter_id_conv)
    then have t: "track_url e ups = map moved_down ups @ [?new]"
      by (simp add: track_url_closed)
    show ?thesis
    proof (rule stackedI)
      fix i assume "i < length (track_url e ups)"
      then have "i < ?n \<or> i = ?n" using t by auto
      then show "y_pos_of (track_url e ups ! i)
                 = MIN_LINE_SPACING * (int (length (track_url e ups)) - int i)"
      proof
        assume i: "i < ?n"
        then have "track_url e ups ! i = moved_down (ups ! i)" using t by (simp add: nth_append)
        then show ?thesis using stacked_nth [OF assms i] t
          by (simp add: MIN_LINE_SPACING_def)
      next
        assume "i = ?n"
        then show ?thesis using t newy by (simp add: nth_append)
      qed
    next
      show "MIN_LINE_SPACING * int (length (track_url e ups)) < SCROLL_AREA_HEIGHT"
        using True t by simp
    qed
  next
    case False
    then have n34: "?n = 34"
      using bound by (simp add: MIN_LINE_SPACING_def SCROLL_AREA_HEIGHT_def SCREEN_HEIGHT_def)
    then obtain x xs where ups: "ups = x # xs" by (cases ups) auto
    have lxs: "length xs = 33" using n34 ups by simp
    have "y_pos_of x = MIN_LINE_SPACING * int ?n"
      using stacked_nth [OF assms, of 0] ups by simp
    then have off: "\<not> on_screen (moved_down x)"
      using n34 by (simp add: on_screen_y_pos MIN_LINE_SPACING_def SCROLL_AREA_HEIGHT_def
            SCREEN_HEIGHT_def)
    have ynth: "\<And>i. i < 33 \<Longrightarrow> y_pos_of (xs ! i) = MIN_LINE_SPACING * (33 - int i)"
    proof -
      fix i :: nat assume "i < 33"
      then have "Suc i < ?n" using n34 by simp
      from stacked_nth [OF assms this] show "y_pos_of (xs ! i) = MIN_LINE_SPACING * (33 - int i)"
        using ups n34 by simp
    qed
    have "\<And>z. z \<in> set xs \<Longrightarrow> on_screen (moved_down z)"
    proof -
      fix z assume "z \<in> set xs"
      then obtain i where i: "i < 33" "z = xs ! i" using lxs by (auto simp: in_set_conv_nth)
      then show "on_screen (moved_down z)"
        using ynth [of i]
        by (simp add: on_screen_y_pos MIN_LINE_SPACING_def SCROLL_AREA_HEIGHT_def
              SCREEN_HEIGHT_def)
    qed
    then have "filter on_screen (map moved_down xs) = map moved_down xs"
      by (simp add: filter_id_conv)
    then have t: "track_url e ups = map moved_down xs @ [?new]"
      using off ups by (simp add: track_url_closed)
    show ?thesis
    proof (rule stackedI)
      fix i assume "i < length (track_url e ups)"
      then have "i < 33 \<or> i = 33" using t lxs by auto
      then show "y_pos_of (track_url e ups ! i)
                 = MIN_LINE_SPACING * (int (length (track_url e ups)) - int i)"
      proof
        assume i: "i < 33"
        then have "track_url e ups ! i = moved_down (xs ! i)"
          using t lxs by (simp add: nth_append)
        then show ?thesis using ynth [OF i] t lxs by (simp add: MIN_LINE_SPACING_def)
      next
        assume "i = 33"
        then show ?thesis using t newy lxs by (simp add: nth_append)
      qed
    next
      show "MIN_LINE_SPACING * int (length (track_url e ups)) < SCROLL_AREA_HEIGHT"
        using t lxs by (simp add: MIN_LINE_SPACING_def SCROLL_AREA_HEIGHT_def SCREEN_HEIGHT_def)
    qed
  qed
qed

lemma spawn_urls:
  "spawn d v = Inr v' \<Longrightarrow> url_positions v' = track_url (hd (log_queue v)) (url_positions v)"
  by (auto simp: spawn_def queue_get_def Ball_init_def Let_def split: list.splits sum.splits)

lemma exec_stacked:
  assumes "exec a v = Inr v'" and "stacked (url_positions v)"
  shows "stacked (url_positions v')"
proof (cases a)
  case (Put e)
  then show ?thesis using assms by (auto simp: put_def)
next
  case Reset
  then show ?thesis using assms by (auto simp: reset_scale_def)
next
  case (Spawn d)
  then show ?thesis
    using assms spawn_urls [of d v v'] stacked_track_url [of "url_positions v"]
    by (auto split: if_splits)
next
  case (Physics f)
  then show ?thesis using assms by (auto simp: physics_def)
next
  case (Reap t)
  then show ?thesis
    using assms reap_loop_fields [of t "balls v" v _ v']
    by (auto simp: reap_def split: sum.splits)
qed

lemma run_stacked:
  "run acts v = Inr v' \<Longrightarrow> stacked (url_positions v) \<Longrightarrow> stacked (url_positions v')"
proof (induction acts arbitrary: v)
  case Nil
  then show ?case by simp
next
  case (Cons a acts)
  then obtain w where w: "exec a v = Inr w" and r: "run acts w = Inr v'"
    by (auto split: sum.splits)
  show ?case using Cons.IH [OF r] exec_stacked [OF w Cons.prems(2)] by simp
qed

lemma reachable_stacked: "run acts init = Inr v \<Longrightarrow> stacked (url_positions v)"
  using run_stacked [of acts init v]
  by (simp add: stacked_def init_def MIN_LINE_SPACING_def SCROLL_AREA_HEIGHT_def SCREEN_HEIGHT_def)

text \<open>
  Claim C6 puts a new entry at offset 0, so that the oldest entry is at 20 times the number
  of entries added after it. The code puts it at 20: after one event the only entry, with
  none added after it, is at 20.
\<close>

theorem activity_offset_counterexample:
  "map_sum id url_positions (run [Put get_event, Spawn draw0] init)
     = Inr [(''/foo'', 1234, 20)]"
  unfolding run_sample
  by (simp add: spawned_def track_url_closed put_def init_def get_event_def)

text \<open>
  Claim C6, amended. In every state a run reaches, a spawn that returns has moved every
  entry of the activity list down by \<open>MIN_LINE_SPACING\<close>, removed the entries whose offset
  is then at least \<open>SCROLL_AREA_HEIGHT\<close>, and appended the new entry at offset 20. After
  it, each entry is at \<open>MIN_LINE_SPACING\<close> times one more than the number of entries after
  it, and below \<open>SCROLL_AREA_HEIGHT\<close>. The spawn returns exactly when the size of the event
  divided by the largest size seen is within the floats.
\<close>

theorem activity_offsets:
  assumes "run acts init = Inr v" and "may_spawn v"
  shows "(\<forall>v'. exec (Spawn d) v = Inr v' \<longrightarrow>
           url_positions v' =
             filter on_screen (map moved_down (url_positions v))
               @ [(url (hd (log_queue v)), size' (hd (log_queue v)), 20)] \<and>
           (\<forall>i < length (url_positions v').
              y_pos_of (url_positions v' ! i)
                = MIN_LINE_SPACING * (1 + int (length (url_positions v') - 1 - i)) \<and>
              y_pos_of (url_positions v' ! i) < SCROLL_AREA_HEIGHT)) \<and>
         ((\<exists>v'. exec (Spawn d) v = Inr v') \<longleftrightarrow>
            in_range (max_size_seen v) (hd (log_queue v)))"
proof -
  have s: "sound v" using assms(1) by (rule reachable_sound)
  have 1: "url_positions v' =
             filter on_screen (map moved_down (url_positions v))
               @ [(url (hd (log_queue v)), size' (hd (log_queue v)), 20)] \<and>
           (\<forall>i < length (url_positions v').
              y_pos_of (url_positions v' ! i)
                = MIN_LINE_SPACING * (1 + int (length (url_positions v') - 1 - i)) \<and>
              y_pos_of (url_positions v' ! i) < SCROLL_AREA_HEIGHT)"
    if x: "exec (Spawn d) v = Inr v'" for v'
  proof -
    have sp: "spawn d v = Inr v'" using x assms(2) by simp
    have u: "url_positions v' =
               filter on_screen (map moved_down (url_positions v))
                 @ [(url (hd (log_queue v)), size' (hd (log_queue v)), 20)]"
      using spawn_urls [OF sp] by (simp add: track_url_closed)
    have st: "stacked (url_positions v')"
      using x reachable_stacked [OF assms(1)] by (rule exec_stacked)
    have "y_pos_of (url_positions v' ! i)
                  = MIN_LINE_SPACING * (1 + int (length (url_positions v') - 1 - i)) \<and>
                y_pos_of (url_positions v' ! i) < SCROLL_AREA_HEIGHT"
      if i: "i < length (url_positions v')" for i
    proof -
      have y: "y_pos_of (url_positions v' ! i)
               = MIN_LINE_SPACING * (int (length (url_positions v')) - int i)"
        using stacked_nth [OF st i] .
      have eq: "int (length (url_positions v')) - int i
                  = 1 + int (length (url_positions v') - 1 - i)"
        using i by linarith
      have le: "MIN_LINE_SPACING * (int (length (url_positions v')) - int i)
                     \<le> MIN_LINE_SPACING * int (length (url_positions v'))"
        by (simp add: MIN_LINE_SPACING_def)
      have lt: "MIN_LINE_SPACING * int (length (url_positions v')) < SCROLL_AREA_HEIGHT"
        using st by (simp add: stacked_def)
      have a: "y_pos_of (url_positions v' ! i)
                  = MIN_LINE_SPACING * (1 + int (length (url_positions v') - 1 - i))"
        by (simp only: y eq)
      have b: "y_pos_of (url_positions v' ! i) < SCROLL_AREA_HEIGHT"
        using le lt by (simp only: y)
      show ?thesis using a b by (rule conjI)
    qed
    then have all: "\<forall>i < length (url_positions v').
                y_pos_of (url_positions v' ! i)
                  = MIN_LINE_SPACING * (1 + int (length (url_positions v') - 1 - i)) \<and>
                y_pos_of (url_positions v' ! i) < SCROLL_AREA_HEIGHT"
      by blast
    show ?thesis using u all by (rule conjI)
  qed
  show ?thesis
    using 1 exec_Spawn_returns(1) [OF s assms(2), of d] by blast
qed

theorem activity_offsets_witness:
  "run [Put get_event, Put get_event, Spawn draw0] init
     = Inr (spawned old_ball get_event (put get_event (put get_event init))) \<and>
   may_spawn (spawned old_ball get_event (put get_event (put get_event init))) \<and>
   (\<exists>v'. exec (Spawn draw0) (spawned old_ball get_event (put get_event (put get_event init)))
           = Inr v' \<and>
         url_positions v' = [(''/foo'', 1234, 40), (''/foo'', 1234, 20)])"
proof -
  let ?v = "put get_event (put get_event init)"
  let ?w = "spawned old_ball get_event ?v"
  have c: "consistent ?v" using consistent_init by (intro consistent_put)
  have q: "log_queue ?v = get_event # [get_event]" by (simp add: put_def init_def)
  have nb: "new_ball draw0 ?v get_event = Inr old_ball"
    by (rule new_ball_sample) (simp_all add: put_def init_def)
  have s: "spawn draw0 ?v = Inr ?w"
    using spawn_consistent [OF c q, of draw0] nb by simp
  have r: "run [Put get_event, Put get_event, Spawn draw0] init = Inr ?w"
    using s by (simp add: may_spawn_def put_def init_def MAX_BALLS_def)
  have m: "may_spawn ?w"
    by (simp add: may_spawn_def spawned_def put_def init_def MAX_BALLS_def)
  have u: "url_positions ?w = [(''/foo'', 1234, 20)]"
    by (simp add: spawned_def track_url_closed put_def init_def get_event_def)
  have h: "hd (log_queue ?w) = get_event" by (simp add: spawned_def put_def init_def)
  have "in_range 1234 get_event"
    using in_range_mono [OF _ _ in_range_get_event, of 1234] by simp
  then have i: "in_range (max_size_seen ?w) (hd (log_queue ?w))"
    unfolding h by (simp add: spawned_def put_def init_def get_event_def)
  note t = activity_offsets [OF r m, of draw0]
  from t i obtain v' where x: "exec (Spawn draw0) ?w = Inr v'" by blast
  from t x have p: "url_positions v' =
             filter on_screen (map moved_down (url_positions ?w))
               @ [(url (hd (log_queue ?w)), size' (hd (log_queue ?w)), 20)]"
    by blast
  have "url_positions v' = [(''/foo'', 1234, 40), (''/foo'', 1234, 20)]"
    unfolding p u h
    by (simp add: on_screen_def moved_down_def get_event_def MIN_LINE_SPACING_def
          SCROLL_AREA_HEIGHT_def SCREEN_HEIGHT_def)
  with x have "\<exists>v'. exec (Spawn draw0) ?w = Inr v' \<and>
         url_positions v' = [(''/foo'', 1234, 40), (''/foo'', 1234, 20)]"
    by (intro exI [of _ v']) simp
  with r m show ?thesis by (intro conjI)
qed

end
